theory Spec2Isabelle
  imports Complex_Main "HOL-Library.Multiset"
begin

section \<open>JavaScript values used by the team generator\<close>

text \<open>
  Ratings, sums and spreads are JavaScript numbers. They are modelled as real numbers
  extended by the two infinities that the code produces on its own: \<open>bestDiff\<close> starts
  at \<open>Infinity\<close>, and \<open>Math.max()\<close> of no arguments is \<open>-Infinity\<close>. Rounding of
  IEEE doubles and arithmetic on \<open>NaN\<close> are outside the model.
\<close>

datatype jsnumber = NegInf | Num real | PosInf

instantiation jsnumber :: linorder
begin

fun less_eq_jsnumber :: "jsnumber \<Rightarrow> jsnumber \<Rightarrow> bool" where
  "less_eq_jsnumber NegInf y = True"
| "less_eq_jsnumber (Num a) NegInf = False"
| "less_eq_jsnumber (Num a) (Num b) = (a \<le> b)"
| "less_eq_jsnumber (Num a) PosInf = True"
| "less_eq_jsnumber PosInf PosInf = True"
| "less_eq_jsnumber PosInf y = False"

definition less_jsnumber :: "jsnumber \<Rightarrow> jsnumber \<Rightarrow> bool" where
  "less_jsnumber x y = (x \<le> y \<and> \<not> y \<le> x)"

instance
proof
  fix x y z :: jsnumber
  show "(x < y) = (x \<le> y \<and> \<not> y \<le> x)"
    by (simp add: less_jsnumber_def)
  show "x \<le> x"
    by (cases x) simp_all
  show "x \<le> y \<Longrightarrow> y \<le> z \<Longrightarrow> x \<le> z"
    by (cases x; cases y; cases z) simp_all
  show "x \<le> y \<Longrightarrow> y \<le> x \<Longrightarrow> x = y"
    by (cases x; cases y) simp_all
  show "x \<le> y \<or> y \<le> x"
    by (cases x; cases y) auto
qed

end

lemma jsnumber_less_simps [simp]:
  "Num a < Num b \<longleftrightarrow> a < b"
  "NegInf < Num a" "Num a < PosInf" "NegInf < PosInf"
  by (auto simp: less_jsnumber_def)

lemma jsnumber_not_less [simp]: "\<not> x < NegInf" "\<not> PosInf < x"
  by (cases x, simp_all add: less_jsnumber_def)+

lemma jsnumber_le_PosInf [simp]: "x \<le> PosInf"
  by (cases x) simp_all

lemma jsnumber_PosInf_le [simp]: "PosInf \<le> x \<longleftrightarrow> x = PosInf"
  by (cases x) simp_all

lemma jsnumber_le_NegInf [simp]: "x \<le> NegInf \<longleftrightarrow> x = NegInf"
  by (cases x) simp_all

text \<open>
  The remainder operator \<open>a % b\<close> on integers: the result has the sign of the dividend,
  and a zero divisor gives \<open>NaN\<close> (here \<open>None\<close>).
\<close>

definition js_rem :: "int \<Rightarrow> int \<Rightarrow> int option" where
  "js_rem a b = (if b = 0 then None else Some (sgn a * (\<bar>a\<bar> mod \<bar>b\<bar>)))"

text \<open>
  \<open>Math.max(...totals) - Math.min(...totals)\<close>. With no arguments \<open>Math.max\<close> is
  \<open>-Infinity\<close> and \<open>Math.min\<close> is \<open>Infinity\<close>, so the difference is \<open>-Infinity\<close>.
\<close>

definition max_minus_min :: "real list \<Rightarrow> jsnumber" where
  "max_minus_min totals =
     (case totals of
        [] \<Rightarrow> NegInf
      | t # ts \<Rightarrow> Num (fold max ts t - fold min ts t))"

text \<open>
  Error messages are template literals. A message is kept as the list of its parts, a
  number spliced into it being kept as the number: how the engine prints a number is not
  modelled. The texts of a \<open>TypeError\<close> and of a \<open>RangeError\<close> are the engine's own;
  \<open>TournamentError\<close> carries its message and its code.
\<close>

datatype part = Str string | Val real | TypeErrorText | RangeErrorText

type_synonym message = "part list"

datatype error =
    Error message
  | TypeError
  | RangeError
  | TeamGenerationError message
  | TournamentError message string

text \<open>Decimal digits of a positive team number, for the identifiers \<open>TEAM1\<close>, \<open>TEAM2\<close>, ...\<close>

fun show_nat :: "nat \<Rightarrow> string" where
  "show_nat n =
     (if n < 10 then [''0123456789'' ! n]
      else show_nat (n div 10) @ [''0123456789'' ! (n mod 10)])"

declare show_nat.simps [simp del]

section \<open>The random source\<close>

text \<open>
  \<open>Math.random()\<close> reads and advances the engine's global generator and returns a number
  \<open>u\<close> with \<open>0 \<le> u < 1\<close>. The generator is a parameter \<open>random\<close> of every function
  that draws from it: a step function on a hidden state \<open>'s\<close>, threaded through the
  calls. The type \<open>draw\<close> holds exactly the values \<open>Math.random()\<close> can return.
\<close>

typedef draw = "{u :: real. 0 \<le> u \<and> u < 1}"
  morphisms draw_val Draw
  by (rule exI [of _ 0]) simp

text \<open>\<open>Math.floor(Math.random() * n)\<close> for an array length \<open>n\<close>.\<close>

definition floor_times :: "draw \<Rightarrow> nat \<Rightarrow> nat" where
  "floor_times u n = nat \<lfloor>draw_val u * real n\<rfloor>"

type_synonym 's random = "'s \<Rightarrow> draw \<times> 's"

section \<open>teamgen.ts\<close>

record Player =
  name :: string
  adr :: real

record Team =
  players :: "Player list"
  totalAdr :: real

record Teams_Result =
  teams :: "Team list"
  adrDiff :: jsnumber

text \<open>
  \<open>shuffle\<close>: the loop runs \<open>i\<close> from \<open>array.length - 1\<close> down to \<open>1\<close>, draws
  \<open>j = Math.floor(Math.random() * (i + 1))\<close> and exchanges the entries at \<open>i\<close> and
  \<open>j\<close>. The array is mutated in place; the model returns the new contents.
\<close>

primrec shuffle_loop :: "'s random \<Rightarrow> nat \<Rightarrow> 'a list \<Rightarrow> 's \<Rightarrow> 'a list \<times> 's" where
  "shuffle_loop random 0 array s = (array, s)"
| "shuffle_loop random (Suc k) array s =
     (let i = Suc k;
          (u, s') = random s;
          j = floor_times u (i + 1);
          temp = array ! i;
          array1 = array[i := array ! j];
          array2 = array1[j := temp]
      in shuffle_loop random k array2 s')"

definition shuffle :: "'s random \<Rightarrow> 'a list \<Rightarrow> 's \<Rightarrow> 'a list \<times> 's" where
  "shuffle random array s = shuffle_loop random (length array - 1) array s"

text \<open>
  \<open>computeTeams\<close>. \<open>numTeams = players.length / teamSize\<close> is a number: an integer
  when \<open>teamSize\<close> divides the length (as it does behind the check of \<open>optimizeTeams\<close>),
  a fraction otherwise, \<open>Infinity\<close> or \<open>NaN\<close> when \<open>teamSize\<close> is \<open>0\<close>.

  \<open>js_trunc\<close> is the truncation towards zero that \<open>Array.from({length: numTeams})\<close>
  applies to its length and that defines the remainder; a length that is not positive gives
  the empty array. \<open>js_rem_real a b\<close> is \<open>a % b\<close> on numbers: \<open>a - b * trunc (a / b)\<close>,
  and \<open>NaN\<close> (here \<open>None\<close>) for a zero divisor. \<open>element_index len x\<close> is the position
  that \<open>teams[x]\<close> reads in an array of length \<open>len\<close>: \<open>x\<close> itself when it is a
  non-negative integer below the length, and none otherwise (the element read is
  \<open>undefined\<close>, and \<open>team.players.push\<close> then throws a \<open>TypeError\<close>).
\<close>

definition js_trunc :: "real \<Rightarrow> int" where
  "js_trunc x = (if 0 \<le> x then \<lfloor>x\<rfloor> else \<lceil>x\<rceil>)"

definition js_rem_real :: "real \<Rightarrow> real \<Rightarrow> real option" where
  "js_rem_real a b = (if b = 0 then None else Some (a - b * of_int (js_trunc (a / b))))"

definition element_index :: "nat \<Rightarrow> real \<Rightarrow> nat option" where
  "element_index len x =
     (if 0 \<le> x \<and> of_int \<lfloor>x\<rfloor> = x \<and> nat \<lfloor>x\<rfloor> < len then Some (nat \<lfloor>x\<rfloor>) else None)"

fun place_players :: "real \<Rightarrow> nat \<Rightarrow> Player list \<Rightarrow> Team list \<Rightarrow> error + Team list" where
  "place_players numTeams i [] ts = Inr ts"
| "place_players numTeams i (player # rest) ts =
     (case js_rem_real (real i) numTeams of
        None \<Rightarrow> Inl TypeError
      | Some x \<Rightarrow>
          (case element_index (length ts) x of
             None \<Rightarrow> Inl TypeError
           | Some k \<Rightarrow>
               let team = ts ! k;
                   team' = team\<lparr>players := players team @ [player],
                                totalAdr := totalAdr team + adr player\<rparr>
               in place_players numTeams (Suc i) rest (ts[k := team'])))"

text \<open>
  With \<open>teamSize = 0\<close> the quotient is \<open>NaN\<close> for the empty roster, where
  \<open>Array.from\<close> makes the empty array, the loop places nobody and the spread of no sums
  is \<open>-Infinity\<close>; and it is \<open>Infinity\<close> for any other roster, where \<open>Array.from\<close>
  throws a \<open>RangeError\<close> for the length.
\<close>

definition computeTeams :: "Player list \<Rightarrow> int \<Rightarrow> error + Team list \<times> jsnumber" where
  "computeTeams roster teamSize =
     (if teamSize = 0 then
        (if roster = [] then Inr ([], max_minus_min []) else Inl RangeError)
      else
        let numTeams = real (length roster) / real_of_int teamSize;
            ts0 = replicate (nat (js_trunc numTeams)) \<lparr>players = [], totalAdr = 0\<rparr>
        in case place_players numTeams 0 roster ts0 of
             Inl e \<Rightarrow> Inl e
           | Inr ts \<Rightarrow> Inr (ts, max_minus_min (map totalAdr ts)))"

text \<open>
  The local search. \<open>sum_adr\<close> is \<open>players.reduce((sum, p) => sum + p.adr, 0)\<close>;
  \<open>set_player t k p\<close> is the assignment \<open>teams[t].players[k] = p\<close> and
  \<open>update_total t\<close> the assignment of the recomputed sum to \<open>teams[t].totalAdr\<close>.
  Both are applied at positions inside the arrays only (see \<open>pick_swap\<close> below).
\<close>

definition sum_adr :: "Player list \<Rightarrow> real" where
  "sum_adr ps = foldl (\<lambda>sum p. sum + adr p) 0 ps"

definition set_player :: "nat \<Rightarrow> nat \<Rightarrow> Player \<Rightarrow> Team list \<Rightarrow> Team list" where
  "set_player t k p ts = ts[t := (ts ! t)\<lparr>players := (players (ts ! t))[k := p]\<rparr>]"

definition update_total :: "nat \<Rightarrow> Team list \<Rightarrow> Team list" where
  "update_total t ts = ts[t := (ts ! t)\<lparr>totalAdr := sum_adr (players (ts ! t))\<rparr>]"

text \<open>
  \<open>[teamA.players[aIndex], teamB.players[bIndex]] = [pa, pb]\<close> for the teams at \<open>i\<close>
  and \<open>j\<close>, followed by the two \<open>reduce\<close> calls that recompute \<open>teamA.totalAdr\<close> and
  \<open>teamB.totalAdr\<close>. The assignments run in this order, on the array as it then stands.
\<close>

definition assign_swap ::
  "nat \<Rightarrow> nat \<Rightarrow> Player \<Rightarrow> nat \<Rightarrow> nat \<Rightarrow> Player \<Rightarrow> Team list \<Rightarrow> Team list" where
  "assign_swap i aIndex pa j bIndex pb ts =
     update_total j (update_total i (set_player j bIndex pb (set_player i aIndex pa ts)))"

text \<open>
  The choices of one attempt: the team indices are shuffled and the first two taken;
  then one member index is drawn in each team. \<open>indices.slice(0, 2)\<close> has fewer than
  two entries when there are fewer than two teams: \<open>j\<close> (or \<open>i\<close> too) is then
  \<open>undefined\<close>, so is the team read at it, and reading its \<open>players\<close> throws a
  \<open>TypeError\<close>. In \<open>Math.random() * team.players.length\<close> the draw is made before the
  right operand is evaluated. With an empty \<open>players\<close> array the member read at index 0 is
  \<open>undefined\<close>; it is written into the other team, whose \<open>reduce\<close> then throws a
  \<open>TypeError\<close> on \<open>p.adr\<close>.
\<close>

definition pick_swap :: "'s random \<Rightarrow> Team list \<Rightarrow> 's \<Rightarrow> (error + nat \<times> nat \<times> nat \<times> nat) \<times> 's" where
  "pick_swap random ts s =
     (let (indices, s1) = shuffle random [0..<length ts] s
      in case take 2 indices of
           [] \<Rightarrow> (let (ua, s2) = random s1 in (Inl TypeError, s2))
         | [i] \<Rightarrow> (let (ua, s2) = random s1; (ub, s3) = random s2 in (Inl TypeError, s3))
         | i # j # _ \<Rightarrow>
             (let teamA = ts ! i;
                  teamB = ts ! j;
                  (ua, s2) = random s1;
                  aIndex = floor_times ua (length (players teamA));
                  (ub, s3) = random s2;
                  bIndex = floor_times ub (length (players teamB))
              in if aIndex < length (players teamA) \<and> bIndex < length (players teamB)
                 then (Inr (i, j, aIndex, bIndex), s3)
                 else (Inl TypeError, s3)))"

lemma draw_val_range: "0 \<le> draw_val u \<and> draw_val u < 1"
  using draw_val [of u] by simp

lemma floor_times_less: "0 < n \<Longrightarrow> floor_times u n < n"
proof -
  assume n: "0 < n"
  have "draw_val u * real n < real n"
    using draw_val_range [of u] n by simp
  moreover have "0 \<le> draw_val u * real n"
    using draw_val_range [of u] by simp
  ultimately show ?thesis
    unfolding floor_times_def by linarith
qed

lemma shuffle_loop_mset:
  "k < length xs \<Longrightarrow> mset (fst (shuffle_loop random k xs s)) = mset xs"
proof (induction k arbitrary: xs s)
  case 0
  then show ?case by simp
next
  case (Suc k)
  obtain u s' where r: "random s = (u, s')" by (cases "random s")
  let ?j = "floor_times u (Suc k + 1)"
  have j: "?j < length xs"
    using floor_times_less [of "Suc k + 1" u] Suc.prems by simp
  let ?ys = "xs[Suc k := xs ! ?j, ?j := xs ! Suc k]"
  have "mset ?ys = mset xs"
    using mset_swap [of ?j xs "Suc k"] j Suc.prems by simp
  moreover have "mset (fst (shuffle_loop random k ?ys s')) = mset ?ys"
    using Suc.IH [of ?ys s'] Suc.prems by simp
  ultimately show ?case
    using r by (simp add: Let_def)
qed

lemma shuffle_mset: "mset (fst (shuffle random xs s)) = mset xs"
proof (cases xs)
  case Nil
  then show ?thesis by (simp add: shuffle_def)
next
  case (Cons x rest)
  then show ?thesis
    unfolding shuffle_def using shuffle_loop_mset [of "length xs - 1" xs random s] by simp
qed

text \<open>The two team indices and the two member indices of an attempt are in range.\<close>

lemma pick_swap_Inr:
  assumes "pick_swap random ts s = (Inr (i, j, aIndex, bIndex), s')"
  shows "i < length ts \<and> j < length ts \<and> i \<noteq> j \<and>
         aIndex < length (players (ts ! i)) \<and> bIndex < length (players (ts ! j))"
proof -
  obtain indices s1 where sh: "shuffle random [0..<length ts] s = (indices, s1)"
    by (cases "shuffle random [0..<length ts] s")
  have m: "mset indices = mset [0..<length ts]"
    using shuffle_mset [of random "[0..<length ts]" s] sh by simp
  have d: "distinct indices"
    using m mset_eq_imp_distinct_iff [OF m] by simp
  have st: "set indices = {0..<length ts}"
    using mset_eq_setD [OF m] by simp
  obtain ua s2 where r1: "random s1 = (ua, s2)" by (cases "random s1")
  obtain ub s3 where r2: "random s2 = (ub, s3)" by (cases "random s2")
  show ?thesis
  proof (cases indices)
    case Nil
    then show ?thesis using assms sh r1 by (simp add: pick_swap_def)
  next
    case (Cons i' rest)
    note c1 = this
    show ?thesis
    proof (cases rest)
      case Nil
      then show ?thesis using assms sh r1 r2 c1 by (simp add: pick_swap_def)
    next
      case (Cons j' rest')
      have ij: "i' < length ts \<and> j' < length ts \<and> i' \<noteq> j'"
        using st d c1 Cons by auto
      show ?thesis
        using assms sh r1 r2 c1 Cons ij
        by (auto simp: pick_swap_def Let_def split: if_splits)
    qed
  qed
qed

subsection \<open>Termination of the search loop\<close>

text \<open>
  The sums a team can ever hold are the stored ones and the sums of lists of members;
  the spreads the loop can compute are differences of two of them. Both sets are finite,
  and an accepted swap lowers the tracked spread strictly inside the second.
\<close>

definition all_players :: "Team list \<Rightarrow> Player list" where
  "all_players ts = concat (map players ts)"

definition totals_universe :: "Team list \<Rightarrow> real set" where
  "totals_universe ts =
     set (map totalAdr ts) \<union>
     sum_adr ` {ps. set ps \<subseteq> set (all_players ts) \<and> length ps \<le> length (all_players ts)}"

definition spreads :: "Team list \<Rightarrow> jsnumber set" where
  "spreads ts = (\<lambda>(a, b). Num (a - b)) ` (totals_universe ts \<times> totals_universe ts)"

definition stays_in :: "Team list \<Rightarrow> Team list \<Rightarrow> bool" where
  "stays_in ts ts' \<longleftrightarrow>
     length ts' = length ts \<and>
     (\<forall>t < length ts.
        set (players (ts' ! t)) \<subseteq> set (all_players ts) \<and>
        length (players (ts' ! t)) = length (players (ts ! t)) \<and>
        totalAdr (ts' ! t) \<in> totals_universe ts)"

lemma finite_totals_universe: "finite (totals_universe ts)"
  unfolding totals_universe_def
  by (intro finite_UnI finite_imageI finite_lists_length_le) simp_all

lemma finite_spreads: "finite (spreads ts)"
  unfolding spreads_def by (intro finite_imageI finite_cartesian_product finite_totals_universe)

lemma nth_list_update_if: "xs[i := x] ! j = (if i = j \<and> i < length xs then x else xs ! j)"
  by (cases "i < length xs") (simp_all add: nth_list_update list_update_beyond)

lemma players_subset_all:
  assumes "t < length ts"
  shows "set (players (ts ! t)) \<subseteq> set (all_players ts)"
  using nth_mem [OF assms] unfolding all_players_def by auto

lemma length_players_le_all: "t < length ts \<Longrightarrow> length (players (ts ! t)) \<le> length (all_players ts)"
proof -
  assume t: "t < length ts"
  have "map (length \<circ> players) ts ! t \<le> sum_list (map (length \<circ> players) ts)"
    using t by (intro elem_le_sum_list) simp
  then have "length (players (ts ! t)) \<le> sum_list (map (length \<circ> players) ts)"
    using t by simp
  then show ?thesis
    by (simp add: all_players_def length_concat comp_def)
qed

lemma stays_in_refl: "stays_in ts ts"
  unfolding stays_in_def
  by (auto simp: totals_universe_def dest: players_subset_all [THEN subsetD])

lemma stays_in_set_player:
  assumes "stays_in ts ts'" and "p \<in> set (all_players ts)"
  shows "stays_in ts (set_player t k p ts')"
proof -
  have "set ((players (ts' ! t))[k := p]) \<subseteq> set (all_players ts)" if "t < length ts"
    using assms that set_update_subset_insert [of "players (ts' ! t)" k p]
    by (auto simp: stays_in_def)
  then show ?thesis
    using assms unfolding stays_in_def set_player_def
    by (simp add: nth_list_update_if)
qed

lemma stays_in_update_total:
  assumes "stays_in ts ts'"
  shows "stays_in ts (update_total t ts')"
proof (cases "t < length ts")
  case False
  then show ?thesis using assms by (simp add: stays_in_def update_total_def)
next
  case True
  have "set (players (ts' ! t)) \<subseteq> set (all_players ts)"
    and "length (players (ts' ! t)) \<le> length (all_players ts)"
    using assms True length_players_le_all [OF True] by (auto simp: stays_in_def)
  then have "sum_adr (players (ts' ! t)) \<in> totals_universe ts"
    unfolding totals_universe_def by blast
  then show ?thesis
    using assms unfolding stays_in_def update_total_def
    by (simp add: nth_list_update_if)
qed

lemma stays_in_universe_subset:
  assumes "stays_in ts ts'"
  shows "totals_universe ts' \<subseteq> totals_universe ts"
proof -
  have len: "length ts' = length ts" using assms by (simp add: stays_in_def)
  have s: "set (all_players ts') \<subseteq> set (all_players ts)"
  proof
    fix x assume "x \<in> set (all_players ts')"
    then obtain tm where "tm \<in> set ts'" "x \<in> set (players tm)"
      by (auto simp: all_players_def)
    then obtain t where "t < length ts'" "x \<in> set (players (ts' ! t))"
      by (metis in_set_conv_nth)
    then show "x \<in> set (all_players ts)"
      using assms by (auto simp: stays_in_def)
  qed
  have "map (length \<circ> players) ts' = map (length \<circ> players) ts"
    using assms by (auto simp: stays_in_def list_eq_iff_nth_eq)
  then have l: "length (all_players ts') = length (all_players ts)"
    by (simp add: all_players_def length_concat comp_def)
  have t: "set (map totalAdr ts') \<subseteq> totals_universe ts"
    using assms len by (auto simp: stays_in_def in_set_conv_nth)
  show ?thesis
    using s l t unfolding totals_universe_def [of ts'] 
    by (auto simp: totals_universe_def)
qed

lemma stays_in_spreads_subset: "stays_in ts ts' \<Longrightarrow> spreads ts' \<subseteq> spreads ts"
  using stays_in_universe_subset [of ts ts'] unfolding spreads_def by auto

lemma fold_max_in: "fold max xs (x :: real) \<in> insert x (set xs)"
  by (induction xs arbitrary: x) (auto simp: max_def)

lemma fold_min_in: "fold min xs (x :: real) \<in> insert x (set xs)"
  by (induction xs arbitrary: x) (auto simp: min_def)

lemma max_minus_min_in_spreads:
  assumes "stays_in ts ts'" and "ts' \<noteq> []"
  shows "max_minus_min (map totalAdr ts') \<in> spreads ts"
proof -
  obtain t rest where c: "map totalAdr ts' = t # rest"
    using assms(2) by (cases ts') auto
  have sub: "set (t # rest) \<subseteq> totals_universe ts"
    using stays_in_universe_subset [OF assms(1)] c [symmetric]
    by (auto simp: totals_universe_def [of ts'])
  have "fold max rest t \<in> totals_universe ts" "fold min rest t \<in> totals_universe ts"
    using fold_max_in [of rest t] fold_min_in [of rest t] sub by auto
  then show ?thesis
    by (auto simp: max_minus_min_def c spreads_def)
qed

lemma nth_player_in_all:
  "t < length ts \<Longrightarrow> k < length (players (ts ! t)) \<Longrightarrow> players (ts ! t) ! k \<in> set (all_players ts)"
  using players_subset_all [of t ts] by auto

lemma stays_in_swap:
  assumes "stays_in ts ts'" and "p \<in> set (all_players ts)" and "q \<in> set (all_players ts)"
  shows "stays_in ts (assign_swap i a q j b p ts')"
  unfolding assign_swap_def
  using assms by (intro stays_in_update_total stays_in_set_player)

lemma swap_stays_in:
  assumes "pick_swap random ts s = (Inr (i, j, aIndex, bIndex), s')"
    and "stays_in ts ts'"
  shows "stays_in ts (assign_swap i aIndex (players (ts ! j) ! bIndex)
                                  j bIndex (players (ts ! i) ! aIndex) ts')"
    and "stays_in ts (assign_swap i aIndex (players (ts ! i) ! aIndex)
                                  j bIndex (players (ts ! j) ! bIndex) ts')"
  using pick_swap_Inr [OF assms(1)] assms(2)
  by (simp_all add: stays_in_swap nth_player_in_all)

lemma accepted_swap_decreases:
  assumes "stays_in ts ts'" and "ts' \<noteq> []"
    and "max_minus_min (map totalAdr ts') < curDiff"
  shows "card {d \<in> spreads ts'. d < max_minus_min (map totalAdr ts')}
         < card {d \<in> spreads ts. d < curDiff}"
proof (rule psubset_card_mono)
  show "finite {d \<in> spreads ts. d < curDiff}"
    using finite_spreads [of ts] by simp
  let ?n = "max_minus_min (map totalAdr ts')"
  have "?n \<in> {d \<in> spreads ts. d < curDiff}"
    using max_minus_min_in_spreads [OF assms(1,2)] assms(3) by simp
  moreover have "?n \<notin> {d \<in> spreads ts'. d < ?n}"
    by simp
  moreover have "{d \<in> spreads ts'. d < ?n} \<subseteq> {d \<in> spreads ts. d < curDiff}"
    using stays_in_spreads_subset [OF assms(1)] assms(3) by auto
  ultimately show "{d \<in> spreads ts'. d < ?n} \<subset> {d \<in> spreads ts. d < curDiff}"
    by blast
qed

lemma reverted_swap_not_increases:
  assumes "stays_in ts ts'"
  shows "card {d \<in> spreads ts'. d < curDiff} \<le> card {d \<in> spreads ts. d < curDiff}"
proof (rule card_mono)
  show "finite {d \<in> spreads ts. d < curDiff}"
    using finite_spreads [of ts] by simp
  show "{d \<in> spreads ts'. d < curDiff} \<subseteq> {d \<in> spreads ts. d < curDiff}"
    using stays_in_spreads_subset [OF assms] by auto
qed

lemma length_set_player [simp]: "length (set_player t k p ts) = length ts"
  by (simp add: set_player_def)

lemma length_update_total [simp]: "length (update_total t ts) = length ts"
  by (simp add: update_total_def)

lemma length_assign_swap [simp]: "length (assign_swap i a p j b q ts) = length ts"
  by (simp add: assign_swap_def)

text \<open>
  The \<open>while (noImprovement < maxNoImprovement)\<close> loop. The swap and its reversal are the
  destructuring assignments of the source, each followed by the two recomputed sums.
\<close>

function search ::
  "'s random \<Rightarrow> int \<Rightarrow> Team list \<Rightarrow> jsnumber \<Rightarrow> nat \<Rightarrow> 's \<Rightarrow> (error + Team list \<times> jsnumber) \<times> 's"
where
  "search random maxNoImprovement ts curDiff noImprovement s =
     (if int noImprovement < maxNoImprovement then
        (case pick_swap random ts s of
           (Inl e, s') \<Rightarrow> (Inl e, s')
         | (Inr (i, j, aIndex, bIndex), s') \<Rightarrow>
             (let playerA = players (ts ! i) ! aIndex;
                  playerB = players (ts ! j) ! bIndex;
                  swapped = assign_swap i aIndex playerB j bIndex playerA ts;
                  newDiff = max_minus_min (map totalAdr swapped)
              in if newDiff < curDiff
                 then search random maxNoImprovement swapped newDiff 0 s'
                 else search random maxNoImprovement
                        (assign_swap i aIndex playerA j bIndex playerB swapped)
                        curDiff (noImprovement + 1) s'))
      else (Inr (ts, curDiff), s))"
  by pat_completeness auto

termination
proof (relation "inv_image (less_than <*lex*> less_than)
    (\<lambda>(random, maxNo, ts, curDiff, noImp, s).
       (card {d \<in> spreads ts. d < curDiff}, nat (maxNo - int noImp)))", goal_cases)
  case 1
  show ?case by (intro wf_inv_image wf_lex_prod wf_less_than)
next
  case (2 random maxNo ts curDiff noImp s r s' sw i rest1 j rest2 aIndex bIndex
          playerA playerB swapped newDiff)
  have pick: "pick_swap random ts s = (Inr (i, j, aIndex, bIndex), s')"
    using 2 by simp
  have st: "stays_in ts swapped"
    using swap_stays_in(1) [OF pick stays_in_refl] 2 by simp
  have "length swapped = length ts"
    using 2 by simp
  then have ne: "swapped \<noteq> []"
    using pick_swap_Inr [OF pick] by auto
  show ?case
    using accepted_swap_decreases [OF st ne, of curDiff] 2 by simp
next
  case (3 random maxNo ts curDiff noImp s r s' sw i rest1 j rest2 aIndex bIndex
          playerA playerB swapped newDiff)
  have pick: "pick_swap random ts s = (Inr (i, j, aIndex, bIndex), s')"
    using 3 by simp
  have st: "stays_in ts swapped"
    using swap_stays_in(1) [OF pick stays_in_refl] 3 by simp
  have "stays_in ts (assign_swap i aIndex playerA j bIndex playerB swapped)"
    using swap_stays_in(2) [OF pick st] 3 by simp
  from reverted_swap_not_increases [OF this, of curDiff] show ?case
    using 3 by auto
qed

declare search.simps [simp del]

text \<open>
  The loop over the runs, \<open>for (let run = 0; run < runs; run++)\<close>, and
  \<open>optimizeTeams\<close> itself. \<open>runs\<close> is a number that the callers do not force to be
  an integer. \<open>bestTeams\<close> receives a copy of the run's teams.
\<close>

function run_loop ::
  "'s random \<Rightarrow> Player list \<Rightarrow> int \<Rightarrow> int \<Rightarrow> real \<Rightarrow> nat \<Rightarrow> Team list \<Rightarrow> jsnumber \<Rightarrow> 's
     \<Rightarrow> (error + Teams_Result) \<times> 's"
where
  "run_loop random roster teamSize maxNoImprovement runs run bestTeams bestDiff s =
     (if real run < runs then
        (let (shuffled, s1) = shuffle random roster s
         in case computeTeams shuffled teamSize of
              Inl e \<Rightarrow> (Inl e, s1)
            | Inr (ts, curDiff) \<Rightarrow>
                (case search random maxNoImprovement ts curDiff 0 s1 of
                   (Inl e, s2) \<Rightarrow> (Inl e, s2)
                 | (Inr (ts', curDiff'), s2) \<Rightarrow>
                     if curDiff' < bestDiff
                     then run_loop random roster teamSize maxNoImprovement runs (run + 1)
                            ts' curDiff' s2
                     else run_loop random roster teamSize maxNoImprovement runs (run + 1)
                            bestTeams bestDiff s2))
      else (Inr \<lparr>teams = bestTeams, adrDiff = bestDiff\<rparr>, s))"
  by pat_completeness auto
termination
proof (relation "measure (\<lambda>(random, roster, teamSize, maxNo, runs, run, bestTeams, bestDiff, s).
                   nat \<lceil>runs\<rceil> - run)", goal_cases)
  case 1
  show ?case by simp
next
  case (2 random roster teamSize maxNo runs run)
  then have "run < nat \<lceil>runs\<rceil>" by linarith
  then show ?case by simp
next
  case (3 random roster teamSize maxNo runs run)
  then have "run < nat \<lceil>runs\<rceil>" by linarith
  then show ?case by simp
qed

declare run_loop.simps [simp del]

definition optimizeTeams ::
  "'s random \<Rightarrow> Player list \<Rightarrow> int \<Rightarrow> int \<Rightarrow> real \<Rightarrow> 's \<Rightarrow> (error + Teams_Result) \<times> 's"
where
  "optimizeTeams random roster teamSize maxNoImprovement runs s =
     (if js_rem (int (length roster)) teamSize \<noteq> Some 0
      then (Inl (Error [Str ''Player count must be a multiple of '', Val (of_int teamSize)]), s)
      else run_loop random roster teamSize maxNoImprovement runs 0 [] PosInf s)"

section \<open>Properties of the partitioner\<close>

text \<open>Every team's stored sum is the sum of its current members' ratings.\<close>

definition sums_consistent :: "Team list \<Rightarrow> bool" where
  "sums_consistent ts = list_all (\<lambda>t. totalAdr t = sum_adr (players t)) ts"

lemma js_rem_real_nat: "0 < n \<Longrightarrow> js_rem_real (real i) (real n) = Some (real (i mod n))"
proof -
  assume n: "0 < n"
  have "js_trunc (real i / real n) = int (i div n)"
    by (simp add: js_trunc_def floor_divide_of_nat_eq)
  moreover have "real i = real n * real (i div n) + real (i mod n)"
    by (metis mult_div_mod_eq of_nat_add of_nat_mult)
  ultimately show ?thesis
    using n by (simp add: js_rem_real_def)
qed

lemma element_index_nat: "k < len \<Longrightarrow> element_index len (real k) = Some k"
  by (simp add: element_index_def)

lemma sum_list_map_update:
  fixes f :: "'a \<Rightarrow> 'b :: comm_monoid_add"
  shows "t < length ts \<Longrightarrow> sum_list (map f (ts[t := T])) + f (ts ! t) = sum_list (map f ts) + f T"
proof (induction ts arbitrary: t)
  case Nil
  then show ?case by simp
next
  case (Cons a ts)
  show ?case
  proof (cases t)
    case 0
    then show ?thesis by (simp add: ac_simps)
  next
    case (Suc t')
    then have "sum_list (map f (ts[t' := T])) + f (ts ! t') = sum_list (map f ts) + f T"
      using Cons by simp
    then show ?thesis using Suc by (simp add: add.assoc)
  qed
qed

lemma mset_all_players: "mset (all_players ts) = (\<Sum>t\<leftarrow>ts. mset (players t))"
  by (simp add: all_players_def mset_concat comp_def)

lemma mset_all_players_update:
  "t < length ts \<Longrightarrow>
   mset (all_players (ts[t := T])) + mset (players (ts ! t)) = mset (all_players ts) + mset (players T)"
  using sum_list_map_update [of t ts "\<lambda>t. mset (players t)" T] by (simp add: mset_all_players)

lemma sum_adr_snoc: "sum_adr (ps @ [p]) = sum_adr ps + adr p"
  by (simp add: sum_adr_def)

lemma sums_consistent_nth:
  "sums_consistent ts \<longleftrightarrow> (\<forall>t < length ts. totalAdr (ts ! t) = sum_adr (players (ts ! t)))"
  by (simp add: sums_consistent_def list_all_length)

text \<open>
  Round-robin placement: after \<open>i\<close> players, team \<open>k\<close> holds \<open>i div n\<close> members, and one
  more when \<open>k < i mod n\<close>.
\<close>

definition round_robin_sizes :: "nat \<Rightarrow> nat \<Rightarrow> Team list \<Rightarrow> bool" where
  "round_robin_sizes n i ts \<longleftrightarrow>
     length ts = n \<and>
     (\<forall>k < n. length (players (ts ! k)) = i div n + (if k < i mod n then 1 else 0))"

lemma round_robin_sizes_step:
  assumes "0 < n" and "round_robin_sizes n i ts"
  shows "round_robin_sizes n (Suc i)
           (ts[i mod n := (ts ! (i mod n))\<lparr>players := players (ts ! (i mod n)) @ [p],
                                          totalAdr := x\<rparr>])"
proof -
  have len: "length ts = n" using assms(2) by (simp add: round_robin_sizes_def)
  have k0: "i mod n < n" using assms(1) by simp
  show ?thesis
  proof (cases "Suc (i mod n) = n")
    case True
    then have "Suc i mod n = 0" "Suc i div n = Suc (i div n)"
      by (simp_all add: mod_Suc div_Suc)
    then show ?thesis
      using assms(2) len True unfolding round_robin_sizes_def
      by (auto simp: nth_list_update_if)
  next
    case False
    then have "Suc i mod n = Suc (i mod n)" "Suc i div n = i div n"
      by (simp_all add: mod_Suc div_Suc)
    then show ?thesis
      using assms(2) len k0 unfolding round_robin_sizes_def
      by (auto simp: nth_list_update_if)
  qed
qed

lemma place_players_inv:
  assumes "0 < n" and "round_robin_sizes n i ts" and "sums_consistent ts"
  shows "\<exists>ts'. place_players (real n) i rest ts = Inr ts' \<and>
           round_robin_sizes n (i + length rest) ts' \<and>
           sums_consistent ts' \<and>
           mset (all_players ts') = mset (all_players ts) + mset rest"
  using assms(2,3)
proof (induction rest arbitrary: i ts)
  case Nil
  then show ?case by simp
next
  case (Cons p rest)
  let ?k = "i mod n"
  let ?team = "(ts ! ?k)\<lparr>players := players (ts ! ?k) @ [p], totalAdr := totalAdr (ts ! ?k) + adr p\<rparr>"
  let ?ts1 = "ts[?k := ?team]"
  have len: "length ts = n" using Cons.prems(1) by (simp add: round_robin_sizes_def)
  have k: "?k < length ts" using assms(1) len by simp
  have sizes: "round_robin_sizes n (Suc i) ?ts1"
    using round_robin_sizes_step [OF assms(1) Cons.prems(1)] .
  have cons: "sums_consistent ?ts1"
    using Cons.prems(2) k
    by (auto simp: sums_consistent_nth nth_list_update_if sum_adr_snoc)
  have m: "mset (all_players ?ts1) = mset (all_players ts) + {#p#}"
    using mset_all_players_update [OF k, of ?team] by simp
  obtain ts' where r: "place_players (real n) (Suc i) rest ?ts1 = Inr ts'"
    and s': "round_robin_sizes n (Suc i + length rest) ts'"
    and c': "sums_consistent ts'"
    and m': "mset (all_players ts') = mset (all_players ?ts1) + mset rest"
    using Cons.IH [OF sizes cons] by blast
  have "place_players (real n) i (p # rest) ts = Inr ts'"
    using r k assms(1) by (simp add: js_rem_real_nat element_index_nat Let_def)
  then show ?case
    using s' c' m' m by simp
qed

lemma shuffle_length: "length (fst (shuffle random xs s)) = length xs"
  using shuffle_mset [of random xs s] by (metis size_mset)

lemma pick_swap_Inl:
  assumes "pick_swap random ts s = (Inl e, s')"
  shows "e = TypeError \<and> (length ts < 2 \<or> (\<exists>t \<in> set ts. players t = []))"
proof -
  obtain indices s1 where sh: "shuffle random [0..<length ts] s = (indices, s1)"
    by (cases "shuffle random [0..<length ts] s")
  have m: "mset indices = mset [0..<length ts]"
    using shuffle_mset [of random "[0..<length ts]" s] sh by simp
  have len: "length indices = length ts"
    using shuffle_length [of random "[0..<length ts]" s] sh by simp
  have st: "set indices = {0..<length ts}"
    using mset_eq_setD [OF m] by simp
  obtain ua s2 where r1: "random s1 = (ua, s2)" by (cases "random s1")
  obtain ub s3 where r2: "random s2 = (ub, s3)" by (cases "random s2")
  show ?thesis
  proof (cases indices)
    case Nil
    then show ?thesis using assms sh r1 len by (simp add: pick_swap_def)
  next
    case (Cons i rest)
    note c1 = this
    show ?thesis
    proof (cases rest)
      case Nil
      then show ?thesis using assms sh r1 r2 c1 len by (simp add: pick_swap_def)
    next
      case (Cons j rest')
      have ij: "i < length ts" "j < length ts"
        using st c1 Cons by auto
      let ?a = "floor_times ua (length (players (ts ! i)))"
      let ?b = "floor_times ub (length (players (ts ! j)))"
      have e: "e = TypeError" and "\<not> (?a < length (players (ts ! i)) \<and> ?b < length (players (ts ! j)))"
        using assms sh r1 r2 c1 Cons
        by (auto simp: pick_swap_def Let_def split: if_splits)
      then have "players (ts ! i) = [] \<or> players (ts ! j) = []"
        using floor_times_less [of "length (players (ts ! i))" ua]
              floor_times_less [of "length (players (ts ! j))" ub] by auto
      then show ?thesis
        using e ij nth_mem by blast
    qed
  qed
qed

text \<open>Field-wise description of both teams after a swap assignment.\<close>

lemma assign_swap_players:
  assumes "i < length ts" "j < length ts" "i \<noteq> j" "t < length ts"
  shows "players (assign_swap i a p j b q ts ! t) =
           (if t = i then (players (ts ! i))[a := p]
            else if t = j then (players (ts ! j))[b := q]
            else players (ts ! t))"
  using assms
  by (simp add: assign_swap_def update_total_def set_player_def nth_list_update_if)

lemma assign_swap_totalAdr:
  assumes "i < length ts" "j < length ts" "i \<noteq> j" "t < length ts"
  shows "totalAdr (assign_swap i a p j b q ts ! t) =
           (if t = i then sum_adr ((players (ts ! i))[a := p])
            else if t = j then sum_adr ((players (ts ! j))[b := q])
            else totalAdr (ts ! t))"
  using assms
  by (simp add: assign_swap_def update_total_def set_player_def nth_list_update_if)

lemma assign_swap_consistent:
  assumes "i < length ts" "j < length ts" "i \<noteq> j" "sums_consistent ts"
  shows "sums_consistent (assign_swap i a p j b q ts)"
  using assms
  by (simp add: sums_consistent_nth assign_swap_players assign_swap_totalAdr)

lemma assign_swap_sizes:
  assumes "i < length ts" "j < length ts" "i \<noteq> j" "t < length ts"
  shows "length (players (assign_swap i a p j b q ts ! t)) = length (players (ts ! t))"
  using assms by (simp add: assign_swap_players)

lemma Team_eqI: "players (x :: Team) = players y \<Longrightarrow> totalAdr x = totalAdr y \<Longrightarrow> x = y"
  by simp

text \<open>Reverting a swap restores the teams, sums included.\<close>

lemma assign_swap_revert:
  assumes "i < length ts" "j < length ts" "i \<noteq> j" "sums_consistent ts"
  shows "assign_swap i a (players (ts ! i) ! a) j b (players (ts ! j) ! b)
           (assign_swap i a p j b q ts) = ts"
proof (rule nth_equalityI)
  show "length (assign_swap i a (players (ts ! i) ! a) j b (players (ts ! j) ! b)
           (assign_swap i a p j b q ts)) = length ts"
    by simp
next
  fix t
  assume "t < length (assign_swap i a (players (ts ! i) ! a) j b (players (ts ! j) ! b)
           (assign_swap i a p j b q ts))"
  then have t: "t < length ts" by simp
  show "assign_swap i a (players (ts ! i) ! a) j b (players (ts ! j) ! b)
           (assign_swap i a p j b q ts) ! t = ts ! t"
    using assms t
    by (intro Team_eqI)
       (auto simp: assign_swap_players assign_swap_totalAdr sums_consistent_nth)
qed

text \<open>A swap moves members between two teams and loses or duplicates none.\<close>

lemma mset_all_players_set_player:
  assumes "t < length ts" "k < length (players (ts ! t))"
  shows "add_mset (players (ts ! t) ! k) (mset (all_players (set_player t k p ts)))
         = add_mset p (mset (all_players ts))"
proof -
  let ?T = "(ts ! t)\<lparr>players := (players (ts ! t))[k := p]\<rparr>"
  have "mset (all_players (ts[t := ?T])) + mset (players (ts ! t))
        = mset (all_players ts) + mset (players ?T)"
    using mset_all_players_update [OF assms(1)] .
  moreover obtain R where R: "mset (players (ts ! t)) = add_mset (players (ts ! t) ! k) R"
    using assms(2) multi_member_split [of "players (ts ! t) ! k" "mset (players (ts ! t))"]
    by auto
  moreover have "mset (players ?T) = add_mset p R"
    using assms(2) R by (simp add: mset_update)
  ultimately have "add_mset (players (ts ! t) ! k) (mset (all_players (ts[t := ?T]))) + R
                   = add_mset p (mset (all_players ts)) + R"
    by simp
  then show ?thesis
    unfolding set_player_def by simp
qed

lemma all_players_update_total [simp]: "all_players (update_total t ts) = all_players ts"
proof -
  have "map players (update_total t ts) = map players ts"
    by (rule nth_equalityI) (simp_all add: update_total_def nth_list_update_if)
  then show ?thesis by (simp add: all_players_def)
qed

lemma players_set_player_other:
  "t \<noteq> u \<Longrightarrow> players (set_player t k p ts ! u) = players (ts ! u)"
  by (simp add: set_player_def nth_list_update_if)

lemma assign_swap_mset:
  assumes "i < length ts" "j < length ts" "i \<noteq> j"
    and "a < length (players (ts ! i))" "b < length (players (ts ! j))"
  shows "mset (all_players (assign_swap i a (players (ts ! j) ! b) j b (players (ts ! i) ! a) ts))
         = mset (all_players ts)"
proof -
  let ?pA = "players (ts ! i) ! a" and ?pB = "players (ts ! j) ! b"
  let ?ts1 = "set_player i a ?pB ts"
  let ?ts2 = "set_player j b ?pA ?ts1"
  have 1: "add_mset ?pA (mset (all_players ?ts1)) = add_mset ?pB (mset (all_players ts))"
    using mset_all_players_set_player [OF assms(1,4)] .
  have pj: "players (?ts1 ! j) = players (ts ! j)"
    using assms(3) by (simp add: players_set_player_other)
  have "add_mset (players (?ts1 ! j) ! b) (mset (all_players ?ts2))
        = add_mset ?pA (mset (all_players ?ts1))"
    using mset_all_players_set_player [of j ?ts1 b ?pA] assms(2,5) pj by simp
  then have "add_mset ?pB (mset (all_players ?ts2)) = add_mset ?pB (mset (all_players ts))"
    using 1 pj by simp
  then show ?thesis
    by (simp add: assign_swap_def)
qed

definition team_shape :: "nat \<Rightarrow> nat \<Rightarrow> Team list \<Rightarrow> bool" where
  "team_shape n k ts \<longleftrightarrow> length ts = n \<and> list_all (\<lambda>t. length (players t) = k) ts"

lemma team_shape_nth:
  "team_shape n k ts \<longleftrightarrow> length ts = n \<and> (\<forall>t < n. length (players (ts ! t)) = k)"
  by (auto simp: team_shape_def list_all_length)

lemma assign_swap_shape:
  assumes "i < length ts" "j < length ts" "i \<noteq> j" "team_shape n k ts"
  shows "team_shape n k (assign_swap i a p j b q ts)"
  using assms by (simp add: team_shape_nth assign_swap_sizes)

lemma search_stop:
  "\<not> int noImprovement < maxNoImprovement \<Longrightarrow>
   search random maxNoImprovement ts curDiff noImprovement s = (Inr (ts, curDiff), s)"
  by (simp add: search.simps)

lemma search_accept:
  assumes "int noImprovement < maxNoImprovement"
    and "pick_swap random ts s = (Inr (i, j, aIndex, bIndex), s')"
    and "swapped = assign_swap i aIndex (players (ts ! j) ! bIndex) j bIndex (players (ts ! i) ! aIndex) ts"
    and "max_minus_min (map totalAdr swapped) < curDiff"
  shows "search random maxNoImprovement ts curDiff noImprovement s =
         search random maxNoImprovement swapped (max_minus_min (map totalAdr swapped)) 0 s'"
  using assms by (subst search.simps) (simp add: Let_def)

lemma search_reject:
  assumes "int noImprovement < maxNoImprovement"
    and "pick_swap random ts s = (Inr (i, j, aIndex, bIndex), s')"
    and "swapped = assign_swap i aIndex (players (ts ! j) ! bIndex) j bIndex (players (ts ! i) ! aIndex) ts"
    and "\<not> max_minus_min (map totalAdr swapped) < curDiff"
  shows "search random maxNoImprovement ts curDiff noImprovement s =
         search random maxNoImprovement
           (assign_swap i aIndex (players (ts ! i) ! aIndex) j bIndex (players (ts ! j) ! bIndex) swapped)
           curDiff (noImprovement + 1) s'"
  using assms by (subst search.simps) (simp add: Let_def)

lemma search_throw:
  assumes "int noImprovement < maxNoImprovement"
    and "pick_swap random ts s = (Inl e, s')"
  shows "search random maxNoImprovement ts curDiff noImprovement s = (Inl e, s')"
  using assms by (subst search.simps) simp

lemma search_spec:
  assumes "team_shape n k ts" "0 < k" "sums_consistent ts"
    and "curDiff = max_minus_min (map totalAdr ts)"
  shows "case search random maxNo ts curDiff noImp s of
           (Inl e, s') \<Rightarrow> e = TypeError \<and> n < 2 \<and> int noImp < maxNo
         | (Inr (ts', d'), s') \<Rightarrow>
             team_shape n k ts' \<and> sums_consistent ts' \<and>
             mset (all_players ts') = mset (all_players ts) \<and>
             d' = max_minus_min (map totalAdr ts') \<and> d' \<le> curDiff"
  using assms
proof (induction random maxNo ts curDiff noImp s rule: search.induct)
  case (1 random maxNo ts curDiff noImp s)
  show ?case
  proof (cases "int noImp < maxNo")
    case False
    then show ?thesis using 1(3-) by (simp add: search_stop)
  next
    case True
    obtain r s' where pick: "pick_swap random ts s = (r, s')"
      by (cases "pick_swap random ts s")
    show ?thesis
    proof (cases r)
      case (Inl e)
      have "e = TypeError" "length ts < 2 \<or> (\<exists>t \<in> set ts. players t = [])"
        using pick_swap_Inl [of random ts s e s'] pick Inl by simp_all
      moreover have "\<not> (\<exists>t \<in> set ts. players t = [])"
        using 1(3,4) by (auto simp: team_shape_def list_all_iff)
      ultimately show ?thesis
        using True pick Inl 1(3) by (simp add: search_throw team_shape_def)
    next
      case (Inr q)
      obtain i j a b where q: "q = (i, j, a, b)" by (cases q)
      have pk: "pick_swap random ts s = (Inr (i, j, a, b), s')"
        using pick Inr q by simp
      note rng = pick_swap_Inr [OF pk]
      define swapped where "swapped = assign_swap i a (players (ts ! j) ! b) j b (players (ts ! i) ! a) ts"
      have sh: "team_shape n k swapped"
        using rng 1(3) unfolding swapped_def by (simp add: assign_swap_shape)
      have co: "sums_consistent swapped"
        using rng 1(5) unfolding swapped_def by (simp add: assign_swap_consistent)
      have ms: "mset (all_players swapped) = mset (all_players ts)"
        using rng unfolding swapped_def by (simp add: assign_swap_mset)
      show ?thesis
      proof (cases "max_minus_min (map totalAdr swapped) < curDiff")
        case acc: True
        have eq: "search random maxNo ts curDiff noImp s =
                  search random maxNo swapped (max_minus_min (map totalAdr swapped)) 0 s'"
          using search_accept [OF True pk swapped_def acc] .
        have "case search random maxNo swapped (max_minus_min (map totalAdr swapped)) 0 s' of
           (Inl e, s') \<Rightarrow> e = TypeError \<and> n < 2 \<and> int 0 < maxNo
         | (Inr (ts', d'), s') \<Rightarrow>
             team_shape n k ts' \<and> sums_consistent ts' \<and>
             mset (all_players ts') = mset (all_players swapped) \<and>
             d' = max_minus_min (map totalAdr ts') \<and> d' \<le> max_minus_min (map totalAdr swapped)"
          using "1.IH"(1) [OF True pk [symmetric] refl refl refl refl refl refl swapped_def refl acc sh 1(4) co refl] .
        then show ?thesis
          using eq ms acc True by (auto split: prod.splits sum.splits)
      next
        case rej: False
        have restored: "assign_swap i a (players (ts ! i) ! a) j b (players (ts ! j) ! b) swapped = ts"
          using rng 1(5) unfolding swapped_def by (simp add: assign_swap_revert)
        have eq: "search random maxNo ts curDiff noImp s =
                  search random maxNo ts curDiff (noImp + 1) s'"
          using search_reject [OF True pk swapped_def rej] restored by simp
        have "case search random maxNo ts curDiff (noImp + 1) s' of
           (Inl e, s') \<Rightarrow> e = TypeError \<and> n < 2 \<and> int (noImp + 1) < maxNo
         | (Inr (ts', d'), s') \<Rightarrow>
             team_shape n k ts' \<and> sums_consistent ts' \<and>
             mset (all_players ts') = mset (all_players ts) \<and>
             d' = max_minus_min (map totalAdr ts') \<and> d' \<le> curDiff"
          using "1.IH"(2) [OF True pk [symmetric] refl refl refl refl refl refl swapped_def refl rej,
                           unfolded restored, OF 1(3) 1(4) 1(5) 1(6)] .
        then show ?thesis
          using eq True by (auto split: prod.splits sum.splits)
      qed
    qed
  qed
qed

text \<open>
  A roster the partitioner is meant for: not empty, and its length a multiple of a
  positive team size.
\<close>

definition valid_roster :: "Player list \<Rightarrow> int \<Rightarrow> bool" where
  "valid_roster roster teamSize \<longleftrightarrow>
     roster \<noteq> [] \<and> 0 < teamSize \<and> int (length roster) mod teamSize = 0"

text \<open>
  The partition invariants of the specification: \<open>N / teamSize\<close> teams, each of
  \<open>teamSize\<close> members, the members of all teams being the roster, each participant as
  often as the roster has it.
\<close>

definition is_partition :: "Player list \<Rightarrow> int \<Rightarrow> Team list \<Rightarrow> bool" where
  "is_partition roster teamSize ts \<longleftrightarrow>
     int (length ts) = int (length roster) div teamSize \<and>
     list_all (\<lambda>t. int (length (players t)) = teamSize) ts \<and>
     mset (all_players ts) = mset roster"

lemma valid_roster_nat:
  assumes "valid_roster roster teamSize"
  obtains n k where "teamSize = int k" "0 < k" "0 < n" "length roster = n * k"
    "int (length roster) div teamSize = int n"
proof -
  define k where "k = nat teamSize"
  have k: "teamSize = int k" "0 < k"
    using assms by (simp_all add: valid_roster_def k_def)
  have "length roster mod k = 0"
    using assms k by (simp add: valid_roster_def zmod_int [symmetric])
  then have "k dvd length roster" by (simp add: mod_eq_0_iff_dvd)
  then obtain n where n: "length roster = n * k"
    unfolding dvd_def by (auto simp: mult.commute)
  then have "0 < n" using assms by (cases n) (simp_all add: valid_roster_def)
  moreover have "int (length roster) div teamSize = int n"
    using n k by (simp add: zdiv_int [symmetric])
  ultimately show thesis using that k n by blast
qed

lemma all_players_replicate_empty [simp]:
  "all_players (replicate n \<lparr>players = [], totalAdr = 0\<rparr>) = []"
  by (induction n) (simp_all add: all_players_def)

lemma computeTeams_spec:
  assumes "0 < k" "0 < n" "length roster = n * k"
  shows "\<exists>ts. computeTeams roster (int k) = Inr (ts, max_minus_min (map totalAdr ts)) \<and>
           team_shape n k ts \<and> sums_consistent ts \<and> mset (all_players ts) = mset roster"
proof -
  let ?ts0 = "replicate n \<lparr>players = [], totalAdr = 0\<rparr>"
  have nt: "real (length roster) / real_of_int (int k) = real n"
    using assms by simp
  have tr: "nat (js_trunc (real n)) = n"
    by (simp add: js_trunc_def)
  have "round_robin_sizes n 0 ?ts0"
    by (simp add: round_robin_sizes_def)
  moreover have "sums_consistent ?ts0"
    by (simp add: sums_consistent_nth sum_adr_def)
  ultimately obtain ts where r: "place_players (real n) 0 roster ?ts0 = Inr ts"
    and sz: "round_robin_sizes n (0 + length roster) ts"
    and co: "sums_consistent ts"
    and ms: "mset (all_players ts) = mset (all_players ?ts0) + mset roster"
    using place_players_inv [OF assms(2), of 0 ?ts0 roster] by blast
  have "team_shape n k ts"
    using sz assms by (simp add: round_robin_sizes_def team_shape_nth)
  moreover have "computeTeams roster (int k) = Inr (ts, max_minus_min (map totalAdr ts))"
    using r assms(1) unfolding computeTeams_def nt Let_def tr by simp
  ultimately show ?thesis
    using co ms by simp
qed

lemma max_minus_min_Num:
  "ts \<noteq> [] \<Longrightarrow> \<exists>x. max_minus_min (map totalAdr ts) = Num x"
  by (cases ts) (simp_all add: max_minus_min_def)

lemma run_loop_stop:
  "\<not> real run < runs \<Longrightarrow>
   run_loop random roster teamSize maxNoImprovement runs run bestTeams bestDiff s =
     (Inr \<lparr>teams = bestTeams, adrDiff = bestDiff\<rparr>, s)"
  by (simp add: run_loop.simps)

lemma run_loop_throw:
  assumes "real run < runs"
    and "computeTeams (fst (shuffle random roster s)) teamSize = Inr (ts, curDiff)"
    and "search random maxNoImprovement ts curDiff 0 (snd (shuffle random roster s)) = (Inl e, s2)"
  shows "run_loop random roster teamSize maxNoImprovement runs run bestTeams bestDiff s = (Inl e, s2)"
  using assms by (subst run_loop.simps) (simp add: split_beta)

lemma run_loop_better:
  assumes "real run < runs"
    and "computeTeams (fst (shuffle random roster s)) teamSize = Inr (ts, curDiff)"
    and "search random maxNoImprovement ts curDiff 0 (snd (shuffle random roster s))
           = (Inr (ts', curDiff'), s2)"
    and "curDiff' < bestDiff"
  shows "run_loop random roster teamSize maxNoImprovement runs run bestTeams bestDiff s =
         run_loop random roster teamSize maxNoImprovement runs (run + 1) ts' curDiff' s2"
  using assms by (subst run_loop.simps) (simp add: split_beta)

lemma run_loop_not_better:
  assumes "real run < runs"
    and "computeTeams (fst (shuffle random roster s)) teamSize = Inr (ts, curDiff)"
    and "search random maxNoImprovement ts curDiff 0 (snd (shuffle random roster s))
           = (Inr (ts', curDiff'), s2)"
    and "\<not> curDiff' < bestDiff"
  shows "run_loop random roster teamSize maxNoImprovement runs run bestTeams bestDiff s =
         run_loop random roster teamSize maxNoImprovement runs (run + 1) bestTeams bestDiff s2"
  using assms by (subst run_loop.simps) (simp add: split_beta)

text \<open>What a run produces: a partition of the roster with consistent sums and its spread.\<close>

definition good_result :: "Player list \<Rightarrow> nat \<Rightarrow> nat \<Rightarrow> Team list \<Rightarrow> jsnumber \<Rightarrow> bool" where
  "good_result roster n k ts d \<longleftrightarrow>
     team_shape n k ts \<and> sums_consistent ts \<and> mset (all_players ts) = mset roster \<and>
     d = max_minus_min (map totalAdr ts)"

lemma one_run:
  assumes "0 < k" "0 < n" "length roster = n * k"
  obtains ts d where
    "computeTeams (fst (shuffle random roster s)) (int k) = Inr (ts, d)"
    "good_result roster n k ts d"
    "case search random maxNo ts d 0 (snd (shuffle random roster s)) of
       (Inl e, s') \<Rightarrow> e = TypeError \<and> n < 2 \<and> 0 < maxNo
     | (Inr (ts', d'), s') \<Rightarrow> good_result roster n k ts' d' \<and> d' \<le> d"
proof -
  let ?sh = "fst (shuffle random roster s)"
  have len: "length ?sh = n * k"
    using shuffle_length [of random roster s] assms(3) by simp
  obtain ts where c: "computeTeams ?sh (int k) = Inr (ts, max_minus_min (map totalAdr ts))"
    and sh: "team_shape n k ts" and co: "sums_consistent ts"
    and ms: "mset (all_players ts) = mset ?sh"
    using computeTeams_spec [OF assms(1,2) len] by blast
  have g: "good_result roster n k ts (max_minus_min (map totalAdr ts))"
    using sh co ms shuffle_mset [of random roster s] by (simp add: good_result_def)
  have "case search random maxNo ts (max_minus_min (map totalAdr ts)) 0 (snd (shuffle random roster s)) of
       (Inl e, s') \<Rightarrow> e = TypeError \<and> n < 2 \<and> 0 < maxNo
     | (Inr (ts', d'), s') \<Rightarrow> good_result roster n k ts' d' \<and> d' \<le> max_minus_min (map totalAdr ts)"
    using search_spec [OF sh assms(1) co refl, where random = random and maxNo = maxNo
                         and noImp = 0 and s = "snd (shuffle random roster s)"]
          ms shuffle_mset [of random roster s]
    by (auto simp: good_result_def split: prod.splits sum.splits)
  then show thesis using that [OF c g] by simp
qed

lemma run_loop_spec:
  assumes "0 < k" "0 < n" "length roster = n * k" "teamSize = int k"
  shows "case run_loop random roster teamSize maxNo runs run bestTeams bestDiff s of
           (Inl e, s') \<Rightarrow> e = TypeError \<and> n < 2 \<and> 0 < maxNo
         | (Inr r, s') \<Rightarrow>
             (good_result roster n k (teams r) (adrDiff r) \<or>
              (teams r = bestTeams \<and> adrDiff r = bestDiff)) \<and>
             adrDiff r \<le> bestDiff"
  using assms
proof (induction random roster teamSize maxNo runs run bestTeams bestDiff s rule: run_loop.induct)
  case (1 random roster teamSize maxNo runs run bestTeams bestDiff s)
  show ?case
  proof (cases "real run < runs")
    case False
    then show ?thesis by (simp add: run_loop_stop)
  next
    case True
    obtain ts d where c: "computeTeams (fst (shuffle random roster s)) (int k) = Inr (ts, d)"
      and g: "good_result roster n k ts d"
      and sr: "case search random maxNo ts d 0 (snd (shuffle random roster s)) of
                 (Inl e, s') \<Rightarrow> e = TypeError \<and> n < 2 \<and> 0 < maxNo
               | (Inr (ts', d'), s') \<Rightarrow> good_result roster n k ts' d' \<and> d' \<le> d"
      using one_run [OF "1.prems"(1,2,3), of random s maxNo] by blast
    have c': "computeTeams (fst (shuffle random roster s)) teamSize = Inr (ts, d)"
      using c "1.prems"(4) by simp
    obtain res s2 where se: "search random maxNo ts d 0 (snd (shuffle random roster s)) = (res, s2)"
      by (cases "search random maxNo ts d 0 (snd (shuffle random roster s))")
    show ?thesis
    proof (cases res)
      case (Inl e)
      then show ?thesis
        using sr se run_loop_throw [OF True c', of maxNo e s2 bestTeams bestDiff] by simp
    next
      case (Inr p)
      obtain ts' d' where p: "p = (ts', d')" by (cases p)
      have se': "search random maxNo ts d 0 (snd (shuffle random roster s)) = (Inr (ts', d'), s2)"
        using se Inr p by simp
      have g': "good_result roster n k ts' d'"
        using sr se' by simp
      show ?thesis
      proof (cases "d' < bestDiff")
        case better: True
        have "case run_loop random roster teamSize maxNo runs (run + 1) ts' d' s2 of
           (Inl e, s') \<Rightarrow> e = TypeError \<and> n < 2 \<and> 0 < maxNo
         | (Inr r, s') \<Rightarrow>
             (good_result roster n k (teams r) (adrDiff r) \<or>
              (teams r = ts' \<and> adrDiff r = d')) \<and>
             adrDiff r \<le> d'"
          using "1.IH"(1) [OF True refl prod.collapse c' refl se' [symmetric] refl refl better "1.prems"] .
        then show ?thesis
          using run_loop_better [OF True c' se' better] g' better
          by (auto split: prod.splits sum.splits)
      next
        case worse: False
        have "case run_loop random roster teamSize maxNo runs (run + 1) bestTeams bestDiff s2 of
           (Inl e, s') \<Rightarrow> e = TypeError \<and> n < 2 \<and> 0 < maxNo
         | (Inr r, s') \<Rightarrow>
             (good_result roster n k (teams r) (adrDiff r) \<or>
              (teams r = bestTeams \<and> adrDiff r = bestDiff)) \<and>
             adrDiff r \<le> bestDiff"
          using "1.IH"(2) [OF True refl prod.collapse c' refl se' [symmetric] refl refl worse "1.prems"] .
        then show ?thesis
          using run_loop_not_better [OF True c' se' worse] by simp
      qed
    qed
  qed
qed

lemma good_result_Num:
  assumes "good_result roster n k ts d" "0 < n"
  shows "d < PosInf"
proof -
  have "length ts = n" using assms(1) by (simp add: good_result_def team_shape_def)
  then have "ts \<noteq> []" using assms(2) by auto
  then obtain x where "max_minus_min (map totalAdr ts) = Num x"
    using max_minus_min_Num [of ts] by blast
  moreover have "d = max_minus_min (map totalAdr ts)"
    using assms(1) by (simp add: good_result_def)
  ultimately show ?thesis by simp
qed

lemma run_loop_first:
  assumes "0 < k" "0 < n" "length roster = n * k" "real run < runs"
    and "computeTeams (fst (shuffle random roster s)) (int k) = Inr (ts0, d0)"
  shows "case run_loop random roster (int k) maxNo runs run bestTeams PosInf s of
           (Inl e, s') \<Rightarrow> e = TypeError \<and> n < 2 \<and> 0 < maxNo
         | (Inr r, s') \<Rightarrow> good_result roster n k (teams r) (adrDiff r) \<and> adrDiff r \<le> d0"
proof -
  obtain ts d where c: "computeTeams (fst (shuffle random roster s)) (int k) = Inr (ts, d)"
    and g: "good_result roster n k ts d"
    and sr: "case search random maxNo ts d 0 (snd (shuffle random roster s)) of
               (Inl e, s') \<Rightarrow> e = TypeError \<and> n < 2 \<and> 0 < maxNo
             | (Inr (ts', d'), s') \<Rightarrow> good_result roster n k ts' d' \<and> d' \<le> d"
    by (rule one_run [OF assms(1,2,3), of random s maxNo])
  have eqs: "ts = ts0" "d = d0" using c assms(5) by simp_all
  note sr = sr [unfolded eqs]
  obtain res s2 where se: "search random maxNo ts0 d0 0 (snd (shuffle random roster s)) = (res, s2)"
    by (cases "search random maxNo ts0 d0 0 (snd (shuffle random roster s))")
  show ?thesis
  proof (cases res)
    case (Inl e)
    then show ?thesis
      using sr se run_loop_throw [OF assms(4,5), where e = e and ?s2.0 = s2] by simp
  next
    case (Inr p)
    obtain ts' d' where p: "p = (ts', d')" by (cases p)
    have se': "search random maxNo ts0 d0 0 (snd (shuffle random roster s)) = (Inr (ts', d'), s2)"
      using se Inr p by simp
    have g': "good_result roster n k ts' d'" and le: "d' \<le> d0"
      using sr se' by simp_all
    have better: "d' < PosInf"
      using good_result_Num [OF g' assms(2)] .
    have "case run_loop random roster (int k) maxNo runs (run + 1) ts' d' s2 of
           (Inl e, s') \<Rightarrow> e = TypeError \<and> n < 2 \<and> 0 < maxNo
         | (Inr r, s') \<Rightarrow>
             (good_result roster n k (teams r) (adrDiff r) \<or>
              (teams r = ts' \<and> adrDiff r = d')) \<and>
             adrDiff r \<le> d'"
      using run_loop_spec [OF assms(1,2,3) refl] .
    moreover obtain res' s3 where
      rl: "run_loop random roster (int k) maxNo runs (run + 1) ts' d' s2 = (res', s3)"
      by (cases "run_loop random roster (int k) maxNo runs (run + 1) ts' d' s2")
    ultimately have "case (res', s3) of 
           (Inl e, s') \<Rightarrow> e = TypeError \<and> n < 2 \<and> 0 < maxNo
         | (Inr r, s') \<Rightarrow> good_result roster n k (teams r) (adrDiff r) \<and> adrDiff r \<le> d0"
      using g' le by (cases res') auto
    then show ?thesis
      using run_loop_better [OF assms(4,5) se' better] rl by simp
  qed
qed

text \<open>The assignment and spread the first run starts from.\<close>

definition initial_assignment ::
  "'s random \<Rightarrow> Player list \<Rightarrow> int \<Rightarrow> 's \<Rightarrow> error + Team list \<times> jsnumber" where
  "initial_assignment random roster teamSize s =
     computeTeams (fst (shuffle random roster s)) teamSize"

lemma js_rem_valid:
  assumes "valid_roster roster teamSize"
  shows "js_rem (int (length roster)) teamSize = Some 0"
proof -
  have "0 < int (length roster)" "teamSize \<noteq> 0" "\<bar>teamSize\<bar> = teamSize"
    using assms by (simp_all add: valid_roster_def)
  then show ?thesis
    using assms by (simp add: valid_roster_def js_rem_def)
qed

lemma good_result_partition:
  assumes "good_result roster n k ts d" "length roster = n * k" "0 < k"
  shows "is_partition roster (int k) ts"
proof -
  have "int (length roster) div int k = int n"
    using assms(2,3) by (simp add: zdiv_int [symmetric])
  moreover have "length ts = n" "list_all (\<lambda>t. length (players t) = k) ts"
    and "mset (all_players ts) = mset roster"
    using assms(1) by (simp_all add: good_result_def team_shape_def)
  ultimately show ?thesis
    by (simp add: is_partition_def)
qed

lemma optimizeTeams_spec:
  assumes "valid_roster roster teamSize" "0 < runs"
  shows "\<exists>ts0 d0. initial_assignment random roster teamSize s = Inr (ts0, d0) \<and>
         (case optimizeTeams random roster teamSize maxNo runs s of
           (Inl e, s') \<Rightarrow> e = TypeError \<and> int (length roster) = teamSize \<and> 0 < maxNo
         | (Inr r, s') \<Rightarrow>
             is_partition roster teamSize (teams r) \<and> sums_consistent (teams r) \<and>
             adrDiff r = max_minus_min (map totalAdr (teams r)) \<and> adrDiff r \<le> d0)"
proof -
  obtain n k where k: "teamSize = int k" "0 < k" and n: "0 < n" "length roster = n * k"
    using valid_roster_nat [OF assms(1)] by blast
  obtain ts0 d0 where c: "computeTeams (fst (shuffle random roster s)) (int k) = Inr (ts0, d0)"
    by (rule one_run [OF k(2) n, of random s maxNo])
  have run: "real 0 < runs" using assms(2) by simp
  have rl: "case run_loop random roster (int k) maxNo runs 0 [] PosInf s of
           (Inl e, s') \<Rightarrow> e = TypeError \<and> n < 2 \<and> 0 < maxNo
         | (Inr r, s') \<Rightarrow> good_result roster n k (teams r) (adrDiff r) \<and> adrDiff r \<le> d0"
    using run_loop_first [OF k(2) n run c] .
  have single: "int (length roster) = teamSize" if "n < 2"
    using n k that by (cases n) simp_all
  have opt: "optimizeTeams random roster teamSize maxNo runs s =
                 run_loop random roster (int k) maxNo runs 0 [] PosInf s"
    using js_rem_valid [OF assms(1)] k by (simp add: optimizeTeams_def)
  obtain res s' where r: "run_loop random roster (int k) maxNo runs 0 [] PosInf s = (res, s')"
    by (cases "run_loop random roster (int k) maxNo runs 0 [] PosInf s")
  have "case (res, s') of
           (Inl e, s') \<Rightarrow> e = TypeError \<and> int (length roster) = teamSize \<and> 0 < maxNo
         | (Inr r, s') \<Rightarrow>
             is_partition roster teamSize (teams r) \<and> sums_consistent (teams r) \<and>
             adrDiff r = max_minus_min (map totalAdr (teams r)) \<and> adrDiff r \<le> d0"
  proof (cases res)
    case (Inl e)
    then show ?thesis using rl r single by simp
  next
    case (Inr x)
    then have g: "good_result roster n k (teams x) (adrDiff x)" and le: "adrDiff x \<le> d0"
      using rl r by simp_all
    show ?thesis
      using good_result_partition [OF g n(2) k(2)] g le Inr k(1)
      by (simp add: good_result_def)
  qed
  then show ?thesis
    using c k(1) opt r by (simp add: initial_assignment_def)
qed

subsection \<open>Sums and spread on every input\<close>

lemma place_players_consistent:
  "sums_consistent ts \<Longrightarrow> place_players numTeams i rest ts = Inr ts' \<Longrightarrow> sums_consistent ts'"
proof (induction rest arbitrary: i ts)
  case Nil
  then show ?case by simp
next
  case (Cons p rest)
  obtain x k where k: "js_rem_real (real i) numTeams = Some x"
      "element_index (length ts) x = Some k"
    using Cons.prems(2) by (auto split: option.splits)
  have kl: "k < length ts"
    using k(2) by (auto simp: element_index_def split: if_splits)
  let ?team = "(ts ! k)\<lparr>players := players (ts ! k) @ [p],
                         totalAdr := totalAdr (ts ! k) + adr p\<rparr>"
  have "sums_consistent (ts[k := ?team])"
    using Cons.prems(1) kl
    by (auto simp: sums_consistent_nth nth_list_update_if sum_adr_snoc)
  moreover have "place_players numTeams (Suc i) rest (ts[k := ?team]) = Inr ts'"
    using Cons.prems(2) k by (simp add: Let_def)
  ultimately show ?case
    using Cons.IH by blast
qed

lemma computeTeams_sums:
  assumes "computeTeams roster teamSize = Inr (ts, d)"
  shows "sums_consistent ts \<and> d = max_minus_min (map totalAdr ts)"
proof -
  show ?thesis
  proof (cases "teamSize = 0")
    case True
    then show ?thesis
      using assms by (auto simp: computeTeams_def sums_consistent_def split: if_splits)
  next
    case False
    let ?n = "real (length roster) / real_of_int teamSize"
    let ?ts0 = "replicate (nat (js_trunc ?n)) \<lparr>players = [], totalAdr = 0\<rparr>"
    have p: "place_players ?n 0 roster ?ts0 = Inr ts" and d: "d = max_minus_min (map totalAdr ts)"
      using assms False by (auto simp: computeTeams_def Let_def split: sum.splits)
    have "sums_consistent ?ts0"
      by (simp add: sums_consistent_nth sum_adr_def)
    then show ?thesis
      using place_players_consistent [OF _ p] d by simp
  qed
qed

lemma max_minus_min_less_PosInf [simp]: "max_minus_min xs < PosInf"
  by (cases xs) (simp_all add: max_minus_min_def)

lemma search_sums:
  assumes "sums_consistent ts" and "curDiff = max_minus_min (map totalAdr ts)"
  shows "case search random maxNo ts curDiff noImp s of
           (Inl e, s') \<Rightarrow> True
         | (Inr (ts', d'), s') \<Rightarrow>
             sums_consistent ts' \<and> d' = max_minus_min (map totalAdr ts')"
  using assms
proof (induction random maxNo ts curDiff noImp s rule: search.induct)
  case (1 random maxNo ts curDiff noImp s)
  show ?case
  proof (cases "int noImp < maxNo")
    case False
    then show ?thesis using "1.prems" by (simp add: search_stop)
  next
    case True
    obtain r s' where pick: "pick_swap random ts s = (r, s')"
      by (cases "pick_swap random ts s")
    show ?thesis
    proof (cases r)
      case (Inl e)
      then show ?thesis
        using True pick by (simp add: search_throw)
    next
      case (Inr q)
      obtain i j a b where q: "q = (i, j, a, b)" by (cases q)
      have pk: "pick_swap random ts s = (Inr (i, j, a, b), s')"
        using pick Inr q by simp
      note rng = pick_swap_Inr [OF pk]
      define swapped where
        "swapped = assign_swap i a (players (ts ! j) ! b) j b (players (ts ! i) ! a) ts"
      have co: "sums_consistent swapped"
        using rng "1.prems"(1) unfolding swapped_def by (simp add: assign_swap_consistent)
      show ?thesis
      proof (cases "max_minus_min (map totalAdr swapped) < curDiff")
        case acc: True
        show ?thesis
          using "1.IH"(1) [OF True pk [symmetric] refl refl refl refl refl refl swapped_def refl
                            acc co refl]
                search_accept [OF True pk swapped_def acc] by simp
      next
        case rej: False
        have restored:
          "assign_swap i a (players (ts ! i) ! a) j b (players (ts ! j) ! b) swapped = ts"
          using rng "1.prems"(1) unfolding swapped_def by (simp add: assign_swap_revert)
        show ?thesis
          using "1.IH"(2) [OF True pk [symmetric] refl refl refl refl refl refl swapped_def refl
                            rej, unfolded restored, OF "1.prems"]
                search_reject [OF True pk swapped_def rej] restored by simp
      qed
    qed
  qed
qed

lemma run_loop_throw_compute:
  assumes "real run < runs"
    and "computeTeams (fst (shuffle random roster s)) teamSize = Inl e"
  shows "run_loop random roster teamSize maxNoImprovement runs run bestTeams bestDiff s
         = (Inl e, snd (shuffle random roster s))"
  using assms by (subst run_loop.simps) (simp add: split_beta)

lemma run_loop_sums:
  assumes "(sums_consistent bestTeams \<and> bestDiff = max_minus_min (map totalAdr bestTeams)) \<or>
           (real run < runs \<and> bestDiff = PosInf)"
  shows "case run_loop random roster teamSize maxNo runs run bestTeams bestDiff s of
           (Inl e, s') \<Rightarrow> True
         | (Inr r, s') \<Rightarrow>
             sums_consistent (teams r) \<and> adrDiff r = max_minus_min (map totalAdr (teams r))"
  using assms
proof (induction random roster teamSize maxNo runs run bestTeams bestDiff s rule: run_loop.induct)
  case (1 random roster teamSize maxNo runs run bestTeams bestDiff s)
  show ?case
  proof (cases "real run < runs")
    case False
    then show ?thesis using "1.prems" by (simp add: run_loop_stop)
  next
    case True
    show ?thesis
    proof (cases "computeTeams (fst (shuffle random roster s)) teamSize")
      case (Inl e)
      then show ?thesis by (simp add: run_loop_throw_compute [OF True])
    next
      case (Inr p)
      obtain ts d where p: "p = (ts, d)" by (cases p)
      have c: "computeTeams (fst (shuffle random roster s)) teamSize = Inr (ts, d)"
        using Inr p by simp
      note cs = computeTeams_sums [OF c]
      obtain res s2 where
        se: "search random maxNo ts d 0 (snd (shuffle random roster s)) = (res, s2)"
        by (cases "search random maxNo ts d 0 (snd (shuffle random roster s))")
      show ?thesis
      proof (cases res)
        case (Inl e)
        then show ?thesis
          using se run_loop_throw [OF True c, where e = e and ?s2.0 = s2] by simp
      next
        case (Inr q)
        obtain ts' d' where q: "q = (ts', d')" by (cases q)
        have se': "search random maxNo ts d 0 (snd (shuffle random roster s))
                     = (Inr (ts', d'), s2)"
          using se Inr q by simp
        have good: "sums_consistent ts' \<and> d' = max_minus_min (map totalAdr ts')"
          using search_sums [of ts d random maxNo 0 "snd (shuffle random roster s)"] cs se'
          by simp
        show ?thesis
        proof (cases "d' < bestDiff")
          case better: True
          show ?thesis
            using "1.IH"(1) [OF True refl prod.collapse c refl se' [symmetric] refl refl better]
                  good run_loop_better [OF True c se' better] by simp
        next
          case worse: False
          have "bestDiff \<noteq> PosInf"
            using worse good by auto
          then have "(sums_consistent bestTeams \<and>
                      bestDiff = max_minus_min (map totalAdr bestTeams)) \<or>
                     (real (run + 1) < runs \<and> bestDiff = PosInf)"
            using "1.prems" by simp
          then show ?thesis
            using "1.IH"(2) [OF True refl prod.collapse c refl se' [symmetric] refl refl worse]
                  run_loop_not_better [OF True c se' worse] by simp
        qed
      qed
    qed
  qed
qed

lemma optimizeTeams_sums:
  assumes "0 < runs"
  shows "case optimizeTeams random roster teamSize maxNo runs s of
           (Inl e, s') \<Rightarrow> True
         | (Inr r, s') \<Rightarrow>
             sums_consistent (teams r) \<and> adrDiff r = max_minus_min (map totalAdr (teams r))"
proof (cases "js_rem (int (length roster)) teamSize \<noteq> Some 0")
  case True
  then show ?thesis by (simp add: optimizeTeams_def)
next
  case False
  have "real 0 < runs \<and> PosInf = PosInf" using assms by simp
  then show ?thesis
    using False run_loop_sums [of "[]" PosInf 0 runs random roster teamSize maxNo s]
    by (simp add: optimizeTeams_def)
qed

section \<open>Concrete inputs\<close>

text \<open>
  A generator for the examples: its state counts the draws made so far; draws at an even
  count are \<open>0\<close>, the others \<open>1/2\<close>.
\<close>

definition demo_random :: "nat random" where
  "demo_random s = (Draw (if even s then 0 else 1 / 2), Suc s)"

definition demo_roster :: "Player list" where
  "demo_roster =
     [\<lparr>name = ''ann'', adr = 50\<rparr>, \<lparr>name = ''bob'', adr = 60\<rparr>,
      \<lparr>name = ''cat'', adr = 70\<rparr>, \<lparr>name = ''dan'', adr = 80\<rparr>]"

definition demo_pair :: "Player list" where
  "demo_pair = [\<lparr>name = ''ann'', adr = 50\<rparr>, \<lparr>name = ''bob'', adr = 60\<rparr>]"

lemma all_players_Nil [simp]: "all_players [] = []"
  by (simp add: all_players_def)

text \<open>
  C5. For a valid roster and \<open>runs \<ge> 1\<close>, whatever the random draws, the spread that
  \<open>optimizeTeams\<close> returns is at most the spread of the first run's round-robin
  assignment. The only other outcome is the \<open>TypeError\<close> of a single-team roster with a
  search step, where no spread is returned.
\<close>

theorem optimizeTeams_spread_le_initial:
  assumes "valid_roster roster teamSize" and "1 \<le> runs"
  shows "\<exists>ts0 d0. initial_assignment random roster teamSize s = Inr (ts0, d0) \<and>
           (case optimizeTeams random roster teamSize maxNoImprovement runs s of
              (Inr r, s') \<Rightarrow> adrDiff r \<le> d0
            | (Inl e, s') \<Rightarrow> int (length roster) = teamSize \<and> 0 < maxNoImprovement)"
proof -
  have runs: "0 < runs" using assms(2) by simp
  obtain ts0 d0 where i: "initial_assignment random roster teamSize s = Inr (ts0, d0)"
    and c: "case optimizeTeams random roster teamSize maxNoImprovement runs s of
           (Inl e, s') \<Rightarrow> e = TypeError \<and> int (length roster) = teamSize \<and> 0 < maxNoImprovement
         | (Inr r, s') \<Rightarrow>
             is_partition roster teamSize (teams r) \<and> sums_consistent (teams r) \<and>
             adrDiff r = max_minus_min (map totalAdr (teams r)) \<and> adrDiff r \<le> d0"
    using optimizeTeams_spec [OF assms(1) runs, of random s maxNoImprovement]
    by (elim exE conjE) (rule that)
  obtain res s' where o: "optimizeTeams random roster teamSize maxNoImprovement runs s = (res, s')"
    by (cases "optimizeTeams random roster teamSize maxNoImprovement runs s")
  have "case (res, s') of
              (Inr r, s') \<Rightarrow> adrDiff r \<le> d0
            | (Inl e, s') \<Rightarrow> int (length roster) = teamSize \<and> 0 < maxNoImprovement"
    using c o by (cases res) auto
  then show ?thesis using i o by simp
qed

theorem optimizeTeams_spread_le_initial_witness:
  "valid_roster demo_roster 2 \<and>
   (\<exists>ts0 d0. initial_assignment demo_random demo_roster 2 (0 :: nat) = Inr (ts0, d0) \<and>
           (case optimizeTeams demo_random demo_roster 2 3 2 0 of
              (Inr r, s') \<Rightarrow> adrDiff r \<le> d0
            | (Inl e, s') \<Rightarrow> int (length demo_roster) = 2 \<and> (0 :: int) < 3))"
  using optimizeTeams_spread_le_initial [of demo_roster 2 2 demo_random 0 3]
  by (simp add: valid_roster_def demo_roster_def)

lemma demo_random_index [simp]:
  "floor_times (fst (demo_random s)) n = (if even s then 0 else n div 2)"
  "snd (demo_random s) = Suc s"
proof -
  have "nat \<lfloor>real n / 2\<rfloor> = n div 2"
    by (metis floor_divide_of_nat_eq nat_int of_nat_numeral)
  then show "floor_times (fst (demo_random s)) n = (if even s then 0 else n div 2)"
    by (simp add: demo_random_def floor_times_def Draw_inverse)
  show "snd (demo_random s) = Suc s" by (simp add: demo_random_def)
qed

lemmas eval_simps = search_stop search_throw run_loop_stop
  optimizeTeams_def js_rem_def js_rem_real_def js_trunc_def element_index_def shuffle_def
  computeTeams_def
  max_minus_min_def pick_swap_def set_player_def update_total_def sum_adr_def Let_def
  assign_swap_def split_beta numeral_2_eq_2 upt_rec

definition demo_teams :: "Team list" where
  "demo_teams =
     [\<lparr>players = [\<lparr>name = ''ann'', adr = 50\<rparr>], totalAdr = 50\<rparr>,
      \<lparr>players = [\<lparr>name = ''bob'', adr = 60\<rparr>], totalAdr = 60\<rparr>]"

text \<open>
  C4. A stored team sum equals the sum of the ratings of the team's current members after
  the round-robin construction, after a swap and after its reversal; and for \<open>runs \<ge> 1\<close>
  every result of \<open>optimizeTeams\<close> has consistent sums and a spread equal to the maximum
  minus the minimum of the returned teams' sums.
\<close>

theorem sums_equal_member_ratings:
  "(case computeTeams roster teamSize of
      Inl e \<Rightarrow> True
    | Inr (ts0, d0) \<Rightarrow> sums_consistent ts0 \<and> d0 = max_minus_min (map totalAdr ts0)) \<and>
   (sums_consistent ts \<longrightarrow>
      (case pick_swap random ts s of
         (Inl e, s1) \<Rightarrow> True
       | (Inr (i, j, aIndex, bIndex), s1) \<Rightarrow>
           (let playerA = players (ts ! i) ! aIndex;
                playerB = players (ts ! j) ! bIndex;
                swapped = assign_swap i aIndex playerB j bIndex playerA ts
            in sums_consistent swapped \<and>
               sums_consistent (assign_swap i aIndex playerA j bIndex playerB swapped)))) \<and>
   (1 \<le> runs \<longrightarrow>
      (case optimizeTeams random roster teamSize maxNoImprovement runs s of
         (Inl e, s') \<Rightarrow> True
       | (Inr r, s') \<Rightarrow>
           sums_consistent (teams r) \<and>
           adrDiff r = max_minus_min (map totalAdr (teams r))))"
proof (intro conjI impI)
  show "case computeTeams roster teamSize of
      Inl e \<Rightarrow> True
    | Inr (ts0, d0) \<Rightarrow> sums_consistent ts0 \<and> d0 = max_minus_min (map totalAdr ts0)"
    using computeTeams_sums [of roster teamSize]
    by (cases "computeTeams roster teamSize") auto
next
  assume co: "sums_consistent ts"
  obtain r s1 where pick: "pick_swap random ts s = (r, s1)"
    by (cases "pick_swap random ts s")
  show "case pick_swap random ts s of
         (Inl e, s1) \<Rightarrow> True
       | (Inr (i, j, aIndex, bIndex), s1) \<Rightarrow>
           (let playerA = players (ts ! i) ! aIndex;
                playerB = players (ts ! j) ! bIndex;
                swapped = assign_swap i aIndex playerB j bIndex playerA ts
            in sums_consistent swapped \<and>
               sums_consistent (assign_swap i aIndex playerA j bIndex playerB swapped))"
  proof (cases r)
    case (Inl e)
    then show ?thesis using pick by simp
  next
    case (Inr q)
    obtain i j a b where q: "q = (i, j, a, b)" by (cases q)
    have pk: "pick_swap random ts s = (Inr (i, j, a, b), s1)"
      using pick Inr q by simp
    note rng = pick_swap_Inr [OF pk]
    have "sums_consistent (assign_swap i a (players (ts ! j) ! b) j b (players (ts ! i) ! a) ts)"
      using rng co by (simp add: assign_swap_consistent)
    moreover from this have
      "sums_consistent (assign_swap i a (players (ts ! i) ! a) j b (players (ts ! j) ! b)
         (assign_swap i a (players (ts ! j) ! b) j b (players (ts ! i) ! a) ts))"
      using rng by (simp add: assign_swap_consistent)
    ultimately show ?thesis
      using pk by (simp add: Let_def)
  qed
next
  assume "1 \<le> runs"
  then have "0 < runs" by simp
  then show "case optimizeTeams random roster teamSize maxNoImprovement runs s of
         (Inl e, s') \<Rightarrow> True
       | (Inr r, s') \<Rightarrow>
           sums_consistent (teams r) \<and>
           adrDiff r = max_minus_min (map totalAdr (teams r))"
    by (rule optimizeTeams_sums)
qed

text \<open>
  The instance: the roster of two with teams of one, the teams \<open>demo_teams\<close> for the
  swap (the attempt picks teams 1 and 0 and their only members), one run without search.
\<close>

theorem sums_equal_member_ratings_witness:
  "sums_consistent demo_teams \<and>
   pick_swap demo_random demo_teams (0 :: nat) = (Inr (1, 0, 0, 0), 3) \<and>
   sums_consistent (assign_swap 1 0 (players (demo_teams ! 0) ! 0) 0 0
                      (players (demo_teams ! 1) ! 0) demo_teams) \<and>
   sums_consistent (assign_swap 1 0 (players (demo_teams ! 1) ! 0) 0 0
                      (players (demo_teams ! 0) ! 0)
                      (assign_swap 1 0 (players (demo_teams ! 0) ! 0) 0 0
                         (players (demo_teams ! 1) ! 0) demo_teams)) \<and>
   (case computeTeams demo_pair 1 of
      Inl e \<Rightarrow> True
    | Inr (ts0, d0) \<Rightarrow> sums_consistent ts0 \<and> d0 = max_minus_min (map totalAdr ts0)) \<and>
   (case optimizeTeams demo_random demo_pair 1 0 1 (0 :: nat) of
      (Inl e, s') \<Rightarrow> True
    | (Inr r, s') \<Rightarrow>
        sums_consistent (teams r) \<and> adrDiff r = max_minus_min (map totalAdr (teams r)))"
proof -
  have c: "sums_consistent demo_teams"
    by (simp add: sums_consistent_def demo_teams_def sum_adr_def)
  have p: "pick_swap demo_random demo_teams (0 :: nat) = (Inr (1, 0, 0, 0), 3)"
    by (simp add: eval_simps demo_teams_def)
  show ?thesis
    using sums_equal_member_ratings [of demo_pair 1 demo_teams demo_random 0 1 0] c p
    by (simp add: Let_def)
qed

subsection \<open>A single team\<close>

lemma pick_swap_single:
  assumes "length ts = 1"
  shows "fst (pick_swap random ts s) = Inl TypeError"
proof -
  have "shuffle random [0..<length ts] s = ([0], s)"
    using assms by (simp add: shuffle_def)
  then show ?thesis
    by (simp add: pick_swap_def split_beta)
qed

lemma single_team_throws:
  assumes "valid_roster roster teamSize" and "int (length roster) = teamSize"
    and "0 < maxNo" and "0 < runs"
  shows "fst (optimizeTeams random roster teamSize maxNo runs s) = Inl TypeError"
proof -
  obtain n k where k: "teamSize = int k" "0 < k" and n: "0 < n" "length roster = n * k"
    using valid_roster_nat [OF assms(1)] by blast
  have n1: "n = 1" using assms(2) k n by simp
  obtain ts d where c: "computeTeams (fst (shuffle random roster s)) (int k) = Inr (ts, d)"
    and g: "good_result roster n k ts d"
    by (rule one_run [OF k(2) n, of random s maxNo])
  have len: "length ts = 1"
    using g n1 by (simp add: good_result_def team_shape_def)
  let ?s1 = "snd (shuffle random roster s)"
  obtain e s2 where p: "pick_swap random ts ?s1 = (e, s2)"
    by (cases "pick_swap random ts ?s1")
  then have "e = Inl TypeError"
    using pick_swap_single [OF len, of random ?s1] by simp
  then have "search random maxNo ts d 0 ?s1 = (Inl TypeError, s2)"
    using p assms(3) by (simp add: search_throw)
  then have "run_loop random roster (int k) maxNo runs 0 [] PosInf s = (Inl TypeError, s2)"
    using run_loop_throw [OF _ c] assms(4) by simp
  then show ?thesis
    using js_rem_valid [OF assms(1)] k by (simp add: optimizeTeams_def)
qed

definition demo_five :: "Player list" where
  "demo_five =
     [\<lparr>name = ''ann'', adr = 50\<rparr>, \<lparr>name = ''bob'', adr = 60\<rparr>,
      \<lparr>name = ''cat'', adr = 70\<rparr>, \<lparr>name = ''dan'', adr = 80\<rparr>,
      \<lparr>name = ''eve'', adr = 90\<rparr>]"

text \<open>
  C2. Five participants, teams of five, the default \<open>maxNoImprovement = 1000\<close> and
  \<open>runs = 500\<close>: the first search step finds no second team index, reads
  \<open>teamB.players\<close> of \<open>undefined\<close>, and \<open>optimizeTeams\<close> throws a \<open>TypeError\<close> instead
  of returning the single team.
\<close>

theorem optimizeTeams_single_team_TypeError:
  "fst (optimizeTeams demo_random demo_five 5 1000 500 (0 :: nat)) = Inl TypeError"
  by (rule single_team_throws) (simp_all add: valid_roster_def demo_five_def)

text \<open>Without a search step the single team is returned, with spread \<open>0\<close>.\<close>

lemma single_team_without_search:
  assumes "valid_roster roster teamSize" and "int (length roster) = teamSize"
    and "maxNo \<le> 0" and "0 < runs"
  shows "\<exists>t s'. optimizeTeams random roster teamSize maxNo runs s
                  = (Inr \<lparr>teams = [t], adrDiff = Num 0\<rparr>, s') \<and>
                mset (players t) = mset roster"
proof -
  obtain res s' where o: "optimizeTeams random roster teamSize maxNo runs s = (res, s')"
    by (cases "optimizeTeams random roster teamSize maxNo runs s")
  have spec: "case (res, s') of
           (Inl e, s') \<Rightarrow> e = TypeError \<and> int (length roster) = teamSize \<and> 0 < maxNo
         | (Inr r, s') \<Rightarrow>
             is_partition roster teamSize (teams r) \<and> sums_consistent (teams r) \<and>
             adrDiff r = max_minus_min (map totalAdr (teams r))"
    using optimizeTeams_spec [OF assms(1,4), of random s maxNo] o by (cases res) auto
  then obtain r where r: "res = Inr r" using assms(3) by (cases res) auto
  have p: "is_partition roster teamSize (teams r)"
    and d: "adrDiff r = max_minus_min (map totalAdr (teams r))"
    using spec r by simp_all
  have "0 < teamSize" using assms(1) by (simp add: valid_roster_def)
  then have "length (teams r) = 1"
    using p assms(2) by (simp add: is_partition_def)
  then obtain t where t: "teams r = [t]"
    by (cases "teams r") auto
  have "r = \<lparr>teams = [t], adrDiff = Num 0\<rparr>"
    using t d by (cases r) (simp add: max_minus_min_def)
  moreover have "mset (players t) = mset roster"
    using p t by (simp add: is_partition_def all_players_def)
  ultimately show ?thesis using o r by blast
qed

subsection \<open>The parameter checks\<close>

lemma js_rem_Some_0_iff:
  "js_rem (int n) teamSize = Some 0 \<longleftrightarrow> teamSize \<noteq> 0 \<and> teamSize dvd int n"
proof (cases "teamSize = 0")
  case True
  then show ?thesis by (simp add: js_rem_def)
next
  case False
  have "int n mod \<bar>teamSize\<bar> = 0 \<longleftrightarrow> teamSize dvd int n"
    by (simp add: mod_eq_0_iff_dvd)
  then show ?thesis
    using False by (cases "n = 0") (simp_all add: js_rem_def)
qed

lemma computeTeams_negative_teamSize:
  assumes "teamSize < 0" and "teamSize dvd int (length roster)" and "roster \<noteq> []"
  shows "computeTeams roster teamSize = Inl TypeError"
proof -
  obtain p rest where r: "roster = p # rest" using assms(3) by (cases roster) auto
  have "real (length roster) / real_of_int teamSize < 0"
    using assms(1) r by (simp add: divide_pos_neg)
  then have "nat (js_trunc (real (length roster) / real_of_int teamSize)) = 0"
    by (simp add: js_trunc_def ceiling_le_zero)
  then show ?thesis
    using r assms(1) by (simp add: computeTeams_def js_rem_real_def js_trunc_def element_index_def)
qed

text \<open>
  \<open>computeTeams\<close> on its own, outside the check of \<open>optimizeTeams\<close>: when a positive
  \<open>teamSize\<close> does not divide the length of the roster, \<open>numTeams\<close> is a fraction,
  the teams are as many as its integer part, and the player placed after the last of
  them finds no team: a \<open>TypeError\<close>.
\<close>

lemma js_rem_real_small:
  assumes "0 \<le> a" "a < b"
  shows "js_rem_real a b = Some a"
proof -
  have "0 \<le> a / b" "a / b < 1"
    using assms by simp_all
  then have "\<lfloor>a / b\<rfloor> = 0"
    by linarith
  then show ?thesis
    using assms by (simp add: js_rem_real_def js_trunc_def)
qed

lemma place_players_overflow:
  assumes "real (length ts) < q" and "i \<le> length ts" and "length ts < i + length rest"
  shows "place_players q i rest ts = Inl TypeError"
  using assms
proof (induction rest arbitrary: i ts)
  case Nil
  then show ?case by simp
next
  case (Cons p rest)
  have r: "js_rem_real (real i) q = Some (real i)"
    using Cons.prems(1,2) by (intro js_rem_real_small) simp_all
  show ?case
  proof (cases "i < length ts")
    case True
    let ?ts1 = "ts[i := (ts ! i)\<lparr>players := players (ts ! i) @ [p],
                                   totalAdr := totalAdr (ts ! i) + adr p\<rparr>]"
    have "place_players q (Suc i) rest ?ts1 = Inl TypeError"
      using Cons.prems True by (intro Cons.IH) simp_all
    then show ?thesis
      using r True by (simp add: element_index_nat Let_def)
  next
    case False
    then have "element_index (length ts) (real i) = None"
      by (simp add: element_index_def)
    then show ?thesis
      using r by simp
  qed
qed

lemma computeTeams_not_multiple:
  assumes "0 < teamSize" and "\<not> teamSize dvd int (length roster)"
  shows "computeTeams roster teamSize = Inl TypeError"
proof -
  let ?q = "real (length roster) / real_of_int teamSize"
  let ?L = "nat (js_trunc ?q)"
  have n0: "0 < length roster"
    using assms(2) by (cases roster) simp_all
  have t2: "2 \<le> teamSize"
    using assms by (cases "teamSize = 1") simp_all
  have q0: "0 < ?q"
    using assms(1) n0 by simp
  have L: "?L = nat \<lfloor>?q\<rfloor>"
    using q0 by (simp add: js_trunc_def)
  have "of_int \<lfloor>?q\<rfloor> \<noteq> ?q"
  proof
    assume e: "of_int \<lfloor>?q\<rfloor> = ?q"
    define z where "z = \<lfloor>?q\<rfloor>"
    have qz: "?q = of_int z"
      unfolding z_def using e by (rule sym)
    have "real (length roster) = ?q * real_of_int teamSize"
      using assms(1) by simp
    also have "\<dots> = of_int z * real_of_int teamSize"
      by (simp only: qz)
    finally have "real (length roster) = real_of_int (z * teamSize)"
      by simp
    then have "int (length roster) = z * teamSize"
      by (metis of_int_eq_iff of_int_of_nat_eq)
    then show False
      using assms(2) by simp
  qed
  then have lt: "real ?L < ?q"
    using q0 L by (metis floor_less_cancel less_eq_real_def of_int_floor_le of_nat_nat
        zero_le_floor order_less_le)
  have t1: "1 < real_of_int teamSize"
    using t2 by simp
  have "real (length roster) * 1 < real (length roster) * real_of_int teamSize"
    using t1 n0 by (intro mult_strict_left_mono) simp_all
  then have "?q < real (length roster)"
    using assms(1) by (simp add: pos_divide_less_eq)
  then have "?L < length roster"
    using lt by linarith
  then have "place_players ?q 0 roster (replicate ?L \<lparr>players = [], totalAdr = 0\<rparr>) = Inl TypeError"
    using lt by (intro place_players_overflow) simp_all
  then show ?thesis
    using assms(1) by (simp add: computeTeams_def Let_def)
qed

text \<open>
  C7 (amended). A roster whose length is not a multiple of \<open>teamSize\<close> (a \<open>teamSize\<close>
  of \<open>0\<close> included) makes \<open>optimizeTeams\<close> throw a plain \<open>Error\<close> before any random
  draw. Other parameters are not checked: with \<open>runs \<le> 0\<close> the call returns no teams
  and the spread \<open>Infinity\<close>, also without a draw; with a negative \<open>teamSize\<close> dividing
  the length of a non-empty roster and \<open>runs > 0\<close>, the first run shuffles and then throws
  a \<open>TypeError\<close> when placing the first player.
\<close>

theorem optimizeTeams_parameter_checks:
  "(teamSize = 0 \<or> \<not> teamSize dvd int (length roster) \<longrightarrow>
      optimizeTeams random roster teamSize maxNoImprovement runs s
        = (Inl (Error [Str ''Player count must be a multiple of '', Val (of_int teamSize)]), s)) \<and>
   (teamSize \<noteq> 0 \<and> teamSize dvd int (length roster) \<and> runs \<le> 0 \<longrightarrow>
      optimizeTeams random roster teamSize maxNoImprovement runs s
        = (Inr \<lparr>teams = [], adrDiff = PosInf\<rparr>, s)) \<and>
   (teamSize < 0 \<and> teamSize dvd int (length roster) \<and> roster \<noteq> [] \<and> 0 < runs \<longrightarrow>
      optimizeTeams random roster teamSize maxNoImprovement runs s
        = (Inl TypeError, snd (shuffle random roster s)))"
proof (intro conjI impI)
  assume "teamSize = 0 \<or> \<not> teamSize dvd int (length roster)"
  then have "js_rem (int (length roster)) teamSize \<noteq> Some 0"
    by (auto simp: js_rem_Some_0_iff)
  then show "optimizeTeams random roster teamSize maxNoImprovement runs s
        = (Inl (Error [Str ''Player count must be a multiple of '', Val (of_int teamSize)]), s)"
    by (simp add: optimizeTeams_def)
next
  assume "teamSize \<noteq> 0 \<and> teamSize dvd int (length roster) \<and> runs \<le> 0"
  then have "js_rem (int (length roster)) teamSize = Some 0" and "\<not> real 0 < runs"
    by (simp_all add: js_rem_Some_0_iff)
  then show "optimizeTeams random roster teamSize maxNoImprovement runs s
        = (Inr \<lparr>teams = [], adrDiff = PosInf\<rparr>, s)"
    by (simp add: optimizeTeams_def run_loop_stop)
next
  assume a: "teamSize < 0 \<and> teamSize dvd int (length roster) \<and> roster \<noteq> [] \<and> 0 < runs"
  then have j: "js_rem (int (length roster)) teamSize = Some 0"
    by (simp add: js_rem_Some_0_iff)
  have len: "length (fst (shuffle random roster s)) = length roster"
    by (rule shuffle_length)
  then have "fst (shuffle random roster s) \<noteq> []"
    using a by (metis length_0_conv)
  then have "computeTeams (fst (shuffle random roster s)) teamSize = Inl TypeError"
    using a len computeTeams_negative_teamSize [of teamSize "fst (shuffle random roster s)"]
    by simp
  then show "optimizeTeams random roster teamSize maxNoImprovement runs s
        = (Inl TypeError, snd (shuffle random roster s))"
    using j a by (simp add: optimizeTeams_def run_loop_throw_compute)
qed

theorem optimizeTeams_parameter_checks_witness:
  "optimizeTeams demo_random demo_roster 3 1000 500 (0 :: nat)
     = (Inl (Error [Str ''Player count must be a multiple of '', Val 3]), 0) \<and>
   optimizeTeams demo_random demo_roster 2 1000 0 (0 :: nat)
     = (Inr \<lparr>teams = [], adrDiff = PosInf\<rparr>, 0) \<and>
   optimizeTeams demo_random demo_roster (- 2) 1000 500 (0 :: nat)
     = (Inl TypeError, snd (shuffle demo_random demo_roster 0))"
  using optimizeTeams_parameter_checks [of 3 demo_roster demo_random 1000 500 0]
        optimizeTeams_parameter_checks [of 2 demo_roster demo_random 1000 0 0]
        optimizeTeams_parameter_checks [of "- 2" demo_roster demo_random 1000 500 0]
  by (simp add: demo_roster_def)

text \<open>A negative run count is accepted: the call returns, with no teams.\<close>

theorem optimizeTeams_parameter_checks_counterexample:
  "fst (optimizeTeams demo_random demo_roster 2 1000 (- 1) (0 :: nat))
     = Inr \<lparr>teams = [], adrDiff = PosInf\<rparr>"
  by (simp add: demo_roster_def optimizeTeams_def js_rem_def run_loop_stop)

text \<open>
  Two calls in a row on the same roster and parameters: the second starts from the
  generator state the first one left, and returns the two teams in the other order.
\<close>

theorem optimizeTeams_reproducible_counterexample:
  "fst (optimizeTeams demo_random demo_pair 1 0 1 (0 :: nat)) \<noteq>
   fst (optimizeTeams demo_random demo_pair 1 0 1
          (snd (optimizeTeams demo_random demo_pair 1 0 1 (0 :: nat))))"
proof -
  have 1: "optimizeTeams demo_random demo_pair 1 0 1 (0 :: nat)
        = (Inr \<lparr>teams = [\<lparr>players = [\<lparr>name = ''bob'', adr = 60\<rparr>], totalAdr = 60\<rparr>,
                           \<lparr>players = [\<lparr>name = ''ann'', adr = 50\<rparr>], totalAdr = 50\<rparr>],
                  adrDiff = Num 10\<rparr>, 1)"
    by (simp add: demo_pair_def eval_simps run_loop_better computeTeams_def)
  have 2: "optimizeTeams demo_random demo_pair 1 0 1 (Suc 0)
        = (Inr \<lparr>teams = [\<lparr>players = [\<lparr>name = ''ann'', adr = 50\<rparr>], totalAdr = 50\<rparr>,
                           \<lparr>players = [\<lparr>name = ''bob'', adr = 60\<rparr>], totalAdr = 60\<rparr>],
                  adrDiff = Num 10\<rparr>, 2)"
    by (simp add: demo_pair_def eval_simps run_loop_better computeTeams_def)
  show ?thesis
    by (simp add: 1 2)
qed

subsection \<open>The shape of the partition\<close>

lemma computeTeams_partition:
  assumes "valid_roster roster teamSize"
  shows "\<exists>ts d. computeTeams roster teamSize = Inr (ts, d) \<and> is_partition roster teamSize ts"
proof -
  obtain n k where k: "teamSize = int k" "0 < k" and n: "0 < n" "length roster = n * k"
    using valid_roster_nat [OF assms] by blast
  obtain ts where c: "computeTeams roster (int k) = Inr (ts, max_minus_min (map totalAdr ts))"
    and sh: "team_shape n k ts" and co: "sums_consistent ts"
    and ms: "mset (all_players ts) = mset roster"
    using computeTeams_spec [OF k(2) n] by blast
  have "good_result roster n k ts (max_minus_min (map totalAdr ts))"
    using sh co ms by (simp add: good_result_def)
  then have "is_partition roster (int k) ts"
    using good_result_partition n(2) k(2) by blast
  then show ?thesis
    using c k(1) by blast
qed

lemma is_partition_players:
  assumes "map players ts' = map players ts"
  shows "is_partition roster teamSize ts' = is_partition roster teamSize ts"
proof -
  have len: "length ts' = length ts"
    using arg_cong [OF assms, of length] by simp
  have "players (ts' ! t) = players (ts ! t)" if "t < length ts" for t
    using arg_cong [OF assms, of "\<lambda>xs. xs ! t"] that len by simp
  then have "list_all (\<lambda>t. int (length (players t)) = teamSize) ts'
             = list_all (\<lambda>t. int (length (players t)) = teamSize) ts"
    using len by (simp add: list_all_length)
  then show ?thesis
    using assms len by (simp add: is_partition_def all_players_def)
qed

lemma assign_swap_partition:
  assumes "i < length ts" "j < length ts" "i \<noteq> j"
    and "a < length (players (ts ! i))" "b < length (players (ts ! j))"
    and "is_partition roster teamSize ts"
  shows "is_partition roster teamSize
           (assign_swap i a (players (ts ! j) ! b) j b (players (ts ! i) ! a) ts)"
proof -
  let ?sw = "assign_swap i a (players (ts ! j) ! b) j b (players (ts ! i) ! a) ts"
  have "length (players (?sw ! t)) = length (players (ts ! t))" if "t < length ts" for t
    using assms(1-3) that by (rule assign_swap_sizes)
  then have "list_all (\<lambda>t. int (length (players t)) = teamSize) ?sw
             = list_all (\<lambda>t. int (length (players t)) = teamSize) ts"
    by (simp add: list_all_length)
  then show ?thesis
    using assms(6) assign_swap_mset [OF assms(1-5)] by (simp add: is_partition_def)
qed

lemma assign_swap_revert_players:
  assumes "i < length ts" "j < length ts" "i \<noteq> j"
  shows "map players (assign_swap i a (players (ts ! i) ! a) j b (players (ts ! j) ! b)
                        (assign_swap i a p j b q ts))
         = map players ts"
  using assms by (intro nth_equalityI) (simp_all add: assign_swap_players)

text \<open>
  For a non-empty roster whose length \<open>N\<close> is a multiple of a positive \<open>teamSize\<close>: the
  round-robin placement yields a partition (\<open>N / teamSize\<close> teams of \<open>teamSize\<close>
  members each, holding every participant of the roster exactly as often as the roster
  does); a swap and its reversal turn a partition into a partition; and with \<open>runs > 0\<close>
  and at least two teams (or no search step, \<open>maxNoImprovement \<le> 0\<close>), \<open>optimizeTeams\<close>
  returns a partition.
\<close>

theorem optimizeTeams_partition:
  assumes "valid_roster roster teamSize"
  shows "(\<exists>ts0 d0. computeTeams roster teamSize = Inr (ts0, d0) \<and>
                    is_partition roster teamSize ts0) \<and>
         (is_partition roster teamSize ts \<longrightarrow>
            (case pick_swap random ts s of
               (Inl e, s1) \<Rightarrow> True
             | (Inr (i, j, aIndex, bIndex), s1) \<Rightarrow>
                 (let playerA = players (ts ! i) ! aIndex;
                      playerB = players (ts ! j) ! bIndex;
                      swapped = assign_swap i aIndex playerB j bIndex playerA ts
                  in is_partition roster teamSize swapped \<and>
                     is_partition roster teamSize
                       (assign_swap i aIndex playerA j bIndex playerB swapped)))) \<and>
         (0 < runs \<and> (int (length roster) \<noteq> teamSize \<or> maxNoImprovement \<le> 0) \<longrightarrow>
            (\<exists>r s'. optimizeTeams random roster teamSize maxNoImprovement runs s = (Inr r, s') \<and>
                     is_partition roster teamSize (teams r)))"
proof (intro conjI impI)
  show "\<exists>ts0 d0. computeTeams roster teamSize = Inr (ts0, d0) \<and> is_partition roster teamSize ts0"
    using computeTeams_partition [OF assms] .
next
  assume part: "is_partition roster teamSize ts"
  obtain r s1 where pick: "pick_swap random ts s = (r, s1)"
    by (cases "pick_swap random ts s")
  show "case pick_swap random ts s of
               (Inl e, s1) \<Rightarrow> True
             | (Inr (i, j, aIndex, bIndex), s1) \<Rightarrow>
                 (let playerA = players (ts ! i) ! aIndex;
                      playerB = players (ts ! j) ! bIndex;
                      swapped = assign_swap i aIndex playerB j bIndex playerA ts
                  in is_partition roster teamSize swapped \<and>
                     is_partition roster teamSize
                       (assign_swap i aIndex playerA j bIndex playerB swapped))"
  proof (cases r)
    case (Inl e)
    then show ?thesis using pick by simp
  next
    case (Inr q)
    obtain i j a b where q: "q = (i, j, a, b)" by (cases q)
    have pk: "pick_swap random ts s = (Inr (i, j, a, b), s1)"
      using pick Inr q by simp
    have rng: "i < length ts" "j < length ts" "i \<noteq> j"
      "a < length (players (ts ! i))" "b < length (players (ts ! j))"
      using pick_swap_Inr [OF pk] by simp_all
    let ?sw = "assign_swap i a (players (ts ! j) ! b) j b (players (ts ! i) ! a) ts"
    have "is_partition roster teamSize ?sw"
      using assign_swap_partition [OF rng part] .
    moreover have "is_partition roster teamSize
                     (assign_swap i a (players (ts ! i) ! a) j b (players (ts ! j) ! b) ?sw)"
      using is_partition_players [OF assign_swap_revert_players [OF rng(1-3)]] part by simp
    ultimately show ?thesis
      using pk by (simp add: Let_def)
  qed
next
  assume a: "0 < runs \<and> (int (length roster) \<noteq> teamSize \<or> maxNoImprovement \<le> 0)"
  obtain res s' where o: "optimizeTeams random roster teamSize maxNoImprovement runs s = (res, s')"
    by (cases "optimizeTeams random roster teamSize maxNoImprovement runs s")
  have spec: "\<exists>ts0 d0. initial_assignment random roster teamSize s = Inr (ts0, d0) \<and>
         (case (res, s') of
           (Inl e, s') \<Rightarrow> e = TypeError \<and> int (length roster) = teamSize \<and> 0 < maxNoImprovement
         | (Inr r, s') \<Rightarrow>
             is_partition roster teamSize (teams r) \<and> sums_consistent (teams r) \<and>
             adrDiff r = max_minus_min (map totalAdr (teams r)) \<and> adrDiff r \<le> d0)"
    using optimizeTeams_spec [OF assms, of runs random s maxNoImprovement] a o by simp
  show "\<exists>r s'. optimizeTeams random roster teamSize maxNoImprovement runs s = (Inr r, s') \<and>
                     is_partition roster teamSize (teams r)"
  proof (cases res)
    case (Inl e)
    then show ?thesis using spec a by auto
  next
    case (Inr r)
    then show ?thesis using spec o by auto
  qed
qed

text \<open>
  The instance: the roster of four in teams of two for the placement and the call, and the
  roster of two in the teams \<open>demo_teams\<close> for the swap.
\<close>

lemma optimizeTeams_partition_demo:
  "valid_roster demo_roster 2 \<and> valid_roster demo_pair 1 \<and> is_partition demo_pair 1 demo_teams \<and>
   pick_swap demo_random demo_teams (0 :: nat) = (Inr (1, 0, 0, 0), 3) \<and>
   (\<exists>ts0 d0. computeTeams demo_roster 2 = Inr (ts0, d0) \<and> is_partition demo_roster 2 ts0) \<and>
   is_partition demo_pair 1
     (assign_swap 1 0 (players (demo_teams ! 0) ! 0) 0 0 (players (demo_teams ! 1) ! 0) demo_teams) \<and>
   is_partition demo_pair 1
     (assign_swap 1 0 (players (demo_teams ! 1) ! 0) 0 0 (players (demo_teams ! 0) ! 0)
        (assign_swap 1 0 (players (demo_teams ! 0) ! 0) 0 0 (players (demo_teams ! 1) ! 0)
           demo_teams)) \<and>
   (\<exists>r s'. optimizeTeams demo_random demo_roster 2 3 2 (0 :: nat) = (Inr r, s') \<and>
            is_partition demo_roster 2 (teams r))"
proof -
  have v: "valid_roster demo_roster 2" "valid_roster demo_pair 1"
    by (simp_all add: valid_roster_def demo_roster_def demo_pair_def)
  have p: "is_partition demo_pair 1 demo_teams"
    by (simp add: is_partition_def demo_pair_def demo_teams_def all_players_def)
  have k: "pick_swap demo_random demo_teams (0 :: nat) = (Inr (1, 0, 0, 0), 3)"
    by (simp add: eval_simps demo_teams_def)
  show ?thesis
    using optimizeTeams_partition [OF v(1), of demo_teams demo_random 0 2 3]
          optimizeTeams_partition [OF v(2), of demo_teams demo_random 0 2 3] v p k
    by (simp add: Let_def demo_roster_def)
qed

text \<open>
  C1. Five participants in teams of five, with the \<open>maxNoImprovement = 50\<close> and
  \<open>runs = 200\<close> that the service passes by default: the roster is valid and the
  round-robin placement forms the one team of all five, but the first search step finds no
  second team and throws a \<open>TypeError\<close>, so \<open>optimizeTeams\<close> returns no partition.
  It is the failure of the search on a single team; \<open>optimizeTeams_partition\<close> covers
  every other valid roster.
\<close>

theorem optimizeTeams_single_team_no_partition:
  "valid_roster demo_five 5 \<and>
   (\<exists>ts0 d0. computeTeams demo_five 5 = Inr (ts0, d0) \<and> is_partition demo_five 5 ts0) \<and>
   fst (optimizeTeams demo_random demo_five 5 50 200 (0 :: nat)) = Inl TypeError"
proof -
  have v: "valid_roster demo_five 5"
    by (simp add: valid_roster_def demo_five_def)
  have "fst (optimizeTeams demo_random demo_five 5 50 200 (0 :: nat)) = Inl TypeError"
    by (rule single_team_throws [OF v]) (simp_all add: demo_five_def)
  then show ?thesis
    using v computeTeams_partition [OF v] by simp
qed

section \<open>Dependence on the random source\<close>

text \<open>
  The draws a generator delivers from a state on, one after the other, and two generators
  (or two states of one) that deliver the same draws.
\<close>

primrec nth_draw :: "'s random \<Rightarrow> nat \<Rightarrow> 's \<Rightarrow> draw" where
  "nth_draw random 0 s = fst (random s)"
| "nth_draw random (Suc n) s = nth_draw random n (snd (random s))"

definition same_draws :: "'s random \<Rightarrow> 's \<Rightarrow> 't random \<Rightarrow> 't \<Rightarrow> bool" where
  "same_draws random1 s1 random2 s2 \<longleftrightarrow> (\<forall>n. nth_draw random1 n s1 = nth_draw random2 n s2)"

lemma same_draws_step:
  assumes "same_draws r1 s1 r2 s2"
  shows "fst (r1 s1) = fst (r2 s2)" and "same_draws r1 (snd (r1 s1)) r2 (snd (r2 s2))"
proof -
  show "fst (r1 s1) = fst (r2 s2)"
    using assms [unfolded same_draws_def, rule_format, of 0] by simp
  show "same_draws r1 (snd (r1 s1)) r2 (snd (r2 s2))"
    unfolding same_draws_def
  proof
    fix n
    show "nth_draw r1 n (snd (r1 s1)) = nth_draw r2 n (snd (r2 s2))"
      using assms [unfolded same_draws_def, rule_format, of "Suc n"] by simp
  qed
qed

lemma shuffle_loop_same_draws:
  assumes "same_draws r1 s1 r2 s2"
  shows "fst (shuffle_loop r1 k xs s1) = fst (shuffle_loop r2 k xs s2) \<and>
         same_draws r1 (snd (shuffle_loop r1 k xs s1)) r2 (snd (shuffle_loop r2 k xs s2))"
  using assms
proof (induction k arbitrary: xs s1 s2)
  case 0
  then show ?case by simp
next
  case (Suc k)
  note st = same_draws_step [OF Suc.prems]
  let ?j = "floor_times (fst (r1 s1)) (Suc k + 1)"
  let ?ys = "xs[Suc k := xs ! ?j, ?j := xs ! Suc k]"
  show ?case
    using Suc.IH [OF st(2), of ?ys] st(1) by (simp add: split_beta Let_def)
qed

lemma shuffle_same_draws:
  assumes "same_draws r1 s1 r2 s2"
  shows "fst (shuffle r1 xs s1) = fst (shuffle r2 xs s2)"
    and "same_draws r1 (snd (shuffle r1 xs s1)) r2 (snd (shuffle r2 xs s2))"
  using shuffle_loop_same_draws [OF assms, of "length xs - 1" xs] by (simp_all add: shuffle_def)

lemma pick_swap_same_draws:
  assumes "same_draws r1 s1 r2 s2"
  shows "fst (pick_swap r1 ts s1) = fst (pick_swap r2 ts s2)"
    and "same_draws r1 (snd (pick_swap r1 ts s1)) r2 (snd (pick_swap r2 ts s2))"
proof -
  let ?a = "snd (shuffle r1 [0..<length ts] s1)" and ?b = "snd (shuffle r2 [0..<length ts] s2)"
  note sh = shuffle_same_draws [OF assms, of "[0..<length ts]"]
  note d1 = same_draws_step [OF sh(2)]
  note d2 = same_draws_step [OF d1(2)]
  have "fst (pick_swap r1 ts s1) = fst (pick_swap r2 ts s2) \<and>
        same_draws r1 (snd (pick_swap r1 ts s1)) r2 (snd (pick_swap r2 ts s2))"
  proof (cases "take 2 (fst (shuffle r2 [0..<length ts] s2))")
    case Nil
    then show ?thesis
      using sh(1) d1 by (simp add: pick_swap_def split_beta)
  next
    case (Cons i rest)
    show ?thesis
    proof (cases rest)
      case Nil
      then show ?thesis
        using Cons sh(1) d1 d2 by (simp add: pick_swap_def split_beta)
    next
      case (Cons j rest')
      then show ?thesis
        using \<open>take 2 (fst (shuffle r2 [0..<length ts] s2)) = i # rest\<close> sh(1) d1 d2
        by (simp add: pick_swap_def split_beta Let_def)
    qed
  qed
  then show "fst (pick_swap r1 ts s1) = fst (pick_swap r2 ts s2)"
    and "same_draws r1 (snd (pick_swap r1 ts s1)) r2 (snd (pick_swap r2 ts s2))"
    by simp_all
qed

lemma search_same_draws:
  assumes "same_draws r1 s1 r2 s2"
  shows "fst (search r1 maxNo ts curDiff noImp s1) = fst (search r2 maxNo ts curDiff noImp s2) \<and>
         same_draws r1 (snd (search r1 maxNo ts curDiff noImp s1))
                    r2 (snd (search r2 maxNo ts curDiff noImp s2))"
  using assms
proof (induction r1 maxNo ts curDiff noImp s1 arbitrary: s2 rule: search.induct)
  case (1 r1 maxNo ts curDiff noImp s1)
  note pk = pick_swap_same_draws [OF "1.prems", of ts]
  show ?case
  proof (cases "int noImp < maxNo")
    case False
    then show ?thesis using "1.prems" by (simp add: search_stop)
  next
    case True
    obtain res s1' where p1: "pick_swap r1 ts s1 = (res, s1')"
      by (cases "pick_swap r1 ts s1")
    obtain s2' where p2: "pick_swap r2 ts s2 = (res, s2')"
      using pk(1) p1 by (cases "pick_swap r2 ts s2") simp
    have sd: "same_draws r1 s1' r2 s2'"
      using pk(2) p1 p2 by simp
    show ?thesis
    proof (cases res)
      case (Inl e)
      then show ?thesis
        using True p1 p2 sd by (simp add: search_throw)
    next
      case (Inr q)
      obtain i j a b where q: "q = (i, j, a, b)" by (cases q)
      have k1: "pick_swap r1 ts s1 = (Inr (i, j, a, b), s1')"
        and k2: "pick_swap r2 ts s2 = (Inr (i, j, a, b), s2')"
        using p1 p2 Inr q by simp_all
      define swapped where
        "swapped = assign_swap i a (players (ts ! j) ! b) j b (players (ts ! i) ! a) ts"
      show ?thesis
      proof (cases "max_minus_min (map totalAdr swapped) < curDiff")
        case acc: True
        show ?thesis
          using "1.IH"(1) [OF True k1 [symmetric] refl refl refl refl refl refl swapped_def refl
                            acc sd]
                search_accept [OF True k1 swapped_def acc]
                search_accept [OF True k2 swapped_def acc] by simp
      next
        case rej: False
        show ?thesis
          using "1.IH"(2) [OF True k1 [symmetric] refl refl refl refl refl refl swapped_def refl
                            rej sd]
                search_reject [OF True k1 swapped_def rej]
                search_reject [OF True k2 swapped_def rej] by simp
      qed
    qed
  qed
qed

lemma run_loop_same_draws:
  assumes "same_draws r1 s1 r2 s2"
  shows "fst (run_loop r1 roster teamSize maxNo runs run bestTeams bestDiff s1)
         = fst (run_loop r2 roster teamSize maxNo runs run bestTeams bestDiff s2)"
  using assms
proof (induction r1 roster teamSize maxNo runs run bestTeams bestDiff s1 arbitrary: s2
       rule: run_loop.induct)
  case (1 r1 roster teamSize maxNo runs run bestTeams bestDiff s1)
  note sh = shuffle_same_draws [OF "1.prems", of roster]
  show ?case
  proof (cases "real run < runs")
    case False
    then show ?thesis by (simp add: run_loop_stop)
  next
    case True
    show ?thesis
    proof (cases "computeTeams (fst (shuffle r1 roster s1)) teamSize")
      case (Inl e)
      then show ?thesis
        using sh(1) by (simp add: run_loop_throw_compute [OF True])
    next
      case (Inr p)
      obtain ts d where p: "p = (ts, d)" by (cases p)
      have c1: "computeTeams (fst (shuffle r1 roster s1)) teamSize = Inr (ts, d)"
        using Inr p by simp
      then have c2: "computeTeams (fst (shuffle r2 roster s2)) teamSize = Inr (ts, d)"
        using sh(1) by simp
      note se = search_same_draws [OF sh(2), of maxNo ts d 0]
      obtain res s1' where e1: "search r1 maxNo ts d 0 (snd (shuffle r1 roster s1)) = (res, s1')"
        by (cases "search r1 maxNo ts d 0 (snd (shuffle r1 roster s1))")
      obtain s2' where e2: "search r2 maxNo ts d 0 (snd (shuffle r2 roster s2)) = (res, s2')"
        using se e1 by (cases "search r2 maxNo ts d 0 (snd (shuffle r2 roster s2))") simp
      have sd: "same_draws r1 s1' r2 s2'"
        using se e1 e2 by simp
      show ?thesis
      proof (cases res)
        case (Inl e)
        then show ?thesis
          using e1 e2 run_loop_throw [OF True c1, where e = e and ?s2.0 = s1']
                run_loop_throw [OF True c2, where e = e and ?s2.0 = s2'] by simp
      next
        case (Inr q)
        obtain ts' d' where q: "q = (ts', d')" by (cases q)
        have f1: "search r1 maxNo ts d 0 (snd (shuffle r1 roster s1)) = (Inr (ts', d'), s1')"
          and f2: "search r2 maxNo ts d 0 (snd (shuffle r2 roster s2)) = (Inr (ts', d'), s2')"
          using e1 e2 Inr q by simp_all
        show ?thesis
        proof (cases "d' < bestDiff")
          case better: True
          show ?thesis
            using "1.IH"(1) [OF True refl prod.collapse c1 refl f1 [symmetric] refl refl better sd]
                  run_loop_better [OF True c1 f1 better]
                  run_loop_better [OF True c2 f2 better] by simp
        next
          case worse: False
          show ?thesis
            using "1.IH"(2) [OF True refl prod.collapse c1 refl f1 [symmetric] refl refl worse sd]
                  run_loop_not_better [OF True c1 f1 worse]
                  run_loop_not_better [OF True c2 f2 worse] by simp
        qed
      qed
    qed
  qed
qed

lemma nth_draw_demo_random:
  "nth_draw demo_random n s = Draw (if even (s + n) then 0 else 1 / 2)"
  by (induction n arbitrary: s) (simp_all add: demo_random_def)

text \<open>
  C9 (amended). \<open>optimizeTeams\<close> takes no seed: its draws come from the engine's
  generator, whose state is not an argument of the call. The result is a function of the
  roster, the parameters and the sequence of draws the generator delivers during the call:
  two calls that are given the same draws return the same teams in the same order and the
  same spread.
\<close>

theorem optimizeTeams_same_draws:
  assumes "same_draws random1 s1 random2 s2"
  shows "fst (optimizeTeams random1 roster teamSize maxNoImprovement runs s1)
         = fst (optimizeTeams random2 roster teamSize maxNoImprovement runs s2)"
  using run_loop_same_draws [OF assms] by (simp add: optimizeTeams_def)

theorem optimizeTeams_same_draws_witness:
  "same_draws demo_random (0 :: nat) demo_random (2 :: nat) \<and>
   fst (optimizeTeams demo_random demo_roster 2 3 2 0)
     = fst (optimizeTeams demo_random demo_roster 2 3 2 2)"
proof -
  have "same_draws demo_random (0 :: nat) demo_random (2 :: nat)"
    by (simp add: same_draws_def nth_draw_demo_random)
  then show ?thesis
    using optimizeTeams_same_draws [of demo_random 0 demo_random 2 demo_roster 2 3 2] by simp
qed

section \<open>services: TeamGenerationService\<close>

text \<open>
  The values that reach the service where TypeScript declares a \<open>number\<close>: the
  callers' rows may lack the rating, and the tests pass strings. \<open>Undefined\<close> is also an
  argument that is not supplied. The numbers are a parameter of the type. The run count
  is taken among the real numbers (\<open>jsvalue\<close>). A rating is a real number or one of the
  three numbers that are no reals (\<open>rating\<close>): \<open>typeof\<close> is \<open>"number"\<close> for all of
  them, and what the validation makes of a \<open>NaN\<close> matters below.
\<close>

datatype 'n jsval = Undefined | Null | Number 'n | String string

type_synonym jsvalue = "real jsval"

datatype rating = Finite real | NaN | PlusInfinity | MinusInfinity

text \<open>
  \<open>r < c\<close> and \<open>r > c\<close> for a rating \<open>r\<close> and a real constant \<open>c\<close>: a comparison with
  \<open>NaN\<close> is false.
\<close>

fun rating_less :: "rating \<Rightarrow> real \<Rightarrow> bool" where
  "rating_less (Finite x) c = (x < c)"
| "rating_less NaN c = False"
| "rating_less PlusInfinity c = False"
| "rating_less MinusInfinity c = True"

fun rating_greater :: "rating \<Rightarrow> real \<Rightarrow> bool" where
  "rating_greater (Finite x) c = (x > c)"
| "rating_greater NaN c = False"
| "rating_greater PlusInfinity c = True"
| "rating_greater MinusInfinity c = False"

record TournamentPlayer =
  id_tp :: string
  username :: string
  display_name :: "string option"
  adr_tp :: "rating jsval"

record GeneratedTeam =
  id_gt :: string
  players_gt :: "TournamentPlayer list"
  average_adr :: real
  total_adr :: real

record TeamGenerationResult =
  teams_gr :: "GeneratedTeam list"
  adr_difference :: jsnumber
  optimization_runs :: real

text \<open>The fields set by the constructor of \<open>TeamGenerationService\<close>.\<close>

record Options =
  cfg_defaultRuns :: real
  cfg_maxRuns :: real
  cfg_teamSize :: int

definition default_options :: Options where
  "default_options = \<lparr>cfg_defaultRuns = 200, cfg_maxRuns = 200, cfg_teamSize = 5\<rparr>"

text \<open>\<open>names.join(", ")\<close>.\<close>

fun join :: "string list \<Rightarrow> string" where
  "join [] = []"
| "join [x] = x"
| "join (x # y # rest) = x @ '', '' @ join (y # rest)"

definition missing_adr :: "TournamentPlayer \<Rightarrow> bool" where
  "missing_adr p \<longleftrightarrow> adr_tp p = Undefined \<or> adr_tp p = Null"

text \<open>\<open>typeof p.adr !== "number" || p.adr < 0 || p.adr > 999.99\<close>.\<close>

definition invalid_adr :: "TournamentPlayer \<Rightarrow> bool" where
  "invalid_adr p \<longleftrightarrow>
     (case adr_tp p of
        Number r \<Rightarrow> rating_less r 0 \<or> rating_greater r 999.99
      | _ \<Rightarrow> True)"

definition validatePlayers :: "Options \<Rightarrow> TournamentPlayer list \<Rightarrow> error + unit" where
  "validatePlayers this ps =
     (if length ps = 0 then
        Inl (TeamGenerationError [Str ''No players provided for team generation''])
      else if js_rem (int (length ps)) (cfg_teamSize this) \<noteq> Some 0 then
        Inl (TeamGenerationError
               [Str ''Player count ('', Val (real (length ps)),
                Str '') must be divisible by team size ('', Val (of_int (cfg_teamSize this)),
                Str '')''])
      else
        let playersWithoutAdr = filter missing_adr ps in
        if length playersWithoutAdr > 0 then
          Inl (TeamGenerationError
                 [Str (''Players missing ADR: '' @ join (map username playersWithoutAdr))])
        else
          let invalidAdrPlayers = filter invalid_adr ps in
          if length invalidAdrPlayers > 0 then
            Inl (TeamGenerationError
                   [Str (''Players with invalid ADR values: '' @
                         join (map username invalidAdrPlayers))])
          else Inr ())"

definition validateRuns :: "Options \<Rightarrow> jsvalue \<Rightarrow> error + real" where
  "validateRuns this runs =
     (case runs of
        Undefined \<Rightarrow> Inr (cfg_defaultRuns this)
      | Number x \<Rightarrow>
          if x < 1 then
            Inl (TeamGenerationError [Str ''Optimization runs must be a positive number''])
          else if x > cfg_maxRuns this then
            Inl (TeamGenerationError
                   [Str ''Optimization runs ('', Val x,
                    Str '') exceeds maximum allowed ('', Val (cfg_maxRuns this), Str '')''])
          else Inr x
      | _ \<Rightarrow> Inl (TeamGenerationError [Str ''Optimization runs must be a positive number'']))"

text \<open>
  \<open>convertToTeamgenFormat\<close>. \<open>player.display_name || player.username\<close> takes the
  username when the display name is absent or empty. The rating is copied into the
  optimizer's player. The optimizer is modelled with real ratings: a roster with a rating
  that is no real number has no counterpart there, and the conversion is \<open>None\<close>. After
  \<open>validatePlayers\<close> that is a roster with a rating of \<open>NaN\<close>; what the optimizer
  computes from it is not modelled.
\<close>

fun number_of :: "rating jsval \<Rightarrow> real option" where
  "number_of (Number (Finite x)) = Some x"
| "number_of _ = None"

definition label_of :: "TournamentPlayer \<Rightarrow> string" where
  "label_of player =
     (case display_name player of
        None \<Rightarrow> username player
      | Some d \<Rightarrow> if d = [] then username player else d)"

fun convertToTeamgenFormat :: "TournamentPlayer list \<Rightarrow> Player list option" where
  "convertToTeamgenFormat [] = Some []"
| "convertToTeamgenFormat (player # rest) =
     (case number_of (adr_tp player) of
        None \<Rightarrow> None
      | Some x \<Rightarrow>
          (case convertToTeamgenFormat rest of
             None \<Rightarrow> None
           | Some rest' \<Rightarrow> Some (\<lparr>name = label_of player, adr = x\<rparr> # rest')))"

definition generateTeamId :: "nat \<Rightarrow> string" where
  "generateTeamId teamNumber = ''TEAM'' @ show_nat teamNumber"

text \<open>\<open>Math.round(averageAdr * 100) / 100\<close>; \<open>Math.round\<close> rounds halves upwards.\<close>

definition round2 :: "real \<Rightarrow> real" where
  "round2 x = of_int \<lfloor>x * 100 + 1 / 2\<rfloor> / 100"

definition convertFromTeamgenFormat :: "Team list \<Rightarrow> GeneratedTeam list" where
  "convertFromTeamgenFormat ts =
     map (\<lambda>(team, index).
            let teamId = generateTeamId (index + 1);
                averageAdr = (if length (players team) > 0
                              then totalAdr team / real (length (players team)) else 0)
            in \<lparr>id_gt = teamId,
                players_gt = map (\<lambda>player. \<lparr>id_tp = '''', username = name player,
                                                display_name = Some (name player),
                                                adr_tp = Number (Finite (adr player))\<rparr>)
                                 (players team),
                average_adr = round2 averageAdr,
                total_adr = totalAdr team\<rparr>)
         (zip ts [0..<length ts])"

text \<open>
  \<open>generateBalancedTeams\<close>. The two validations come first and throw before the
  \<open>try\<close>. \<open>executionTime\<close> is the clock reading \<open>Date.now() - startTime\<close> taken in the
  \<open>catch\<close> block, an input from the environment: beyond 80% of 25000 ms the caught
  error is replaced by the time-out error. The result is \<open>None\<close> where the call of the
  optimizer is not modelled (see \<open>convertToTeamgenFormat\<close>), and \<open>Some\<close> of the outcome
  and the generator state otherwise.
\<close>

definition generateBalancedTeams ::
  "Options \<Rightarrow> 's random \<Rightarrow> real \<Rightarrow> TournamentPlayer list \<Rightarrow> jsvalue \<Rightarrow> 's
     \<Rightarrow> ((error + TeamGenerationResult) \<times> 's) option"
where
  "generateBalancedTeams this random executionTime ps runs s =
     (case validatePlayers this ps of
        Inl e \<Rightarrow> Some (Inl e, s)
      | Inr _ \<Rightarrow>
          (case validateRuns this runs of
             Inl e \<Rightarrow> Some (Inl e, s)
           | Inr optimizationRuns \<Rightarrow>
               (case convertToTeamgenFormat ps of
                  None \<Rightarrow> None
                | Some teamgenPlayers \<Rightarrow>
                    let maxExecutionTime = 25000;
                        maxIterations = min 500 \<lfloor>10000 / optimizationRuns\<rfloor>
                    in case optimizeTeams random teamgenPlayers (cfg_teamSize this) maxIterations
                              optimizationRuns s of
                         (Inr result, s') \<Rightarrow>
                           Some (Inr \<lparr>teams_gr = convertFromTeamgenFormat (teams result),
                                      adr_difference = adrDiff result,
                                      optimization_runs = optimizationRuns\<rparr>, s')
                       | (Inl error, s') \<Rightarrow>
                           if executionTime > maxExecutionTime * 0.8 then
                             Some (Inl (TeamGenerationError
                                     [Str ''Team generation timed out. Try reducing the number of optimization runs (current: '',
                                      Val optimizationRuns, Str ''). '', Str ''Recommended: '',
                                      Val (max 10 (of_int \<lfloor>optimizationRuns / 4\<rfloor>)),
                                      Str '' runs or fewer.'']), s')
                           else Some (Inl error, s'))))"

subsection \<open>Validation\<close>

definition demo_player :: "string \<Rightarrow> string \<Rightarrow> rating jsval \<Rightarrow> TournamentPlayer" where
  "demo_player pid uname rating = \<lparr>id_tp = pid, username = uname, display_name = None, adr_tp = rating\<rparr>"



definition demo_players_NaN :: "TournamentPlayer list" where
  "demo_players_NaN =
     [demo_player ''1'' ''Player1'' (Number (Finite 50)), demo_player ''2'' ''Player2'' (Number NaN),
      demo_player ''3'' ''Player3'' (Number (Finite 70)), demo_player ''4'' ''Player4'' (Number (Finite 80)),
      demo_player ''5'' ''Player5'' (Number (Finite 90))]"

lemma demo_player_simps [simp]:
  "id_tp (demo_player pid uname rating) = pid"
  "username (demo_player pid uname rating) = uname"
  "display_name (demo_player pid uname rating) = None"
  "adr_tp (demo_player pid uname rating) = rating"
  by (simp_all add: demo_player_def)




text \<open>
  The roster with the rating of \<open>NaN\<close> gets through both validations and is handed to the
  optimizer, which is where the model of reals ends.
\<close>

lemma generateBalancedTeams_NaN:
  "validatePlayers default_options demo_players_NaN = Inr () \<and>
   validateRuns default_options Undefined = Inr 200 \<and>
   generateBalancedTeams default_options demo_random 0 demo_players_NaN Undefined (0 :: nat) = None"
  by (simp add: generateBalancedTeams_def validatePlayers_def validateRuns_def
      demo_players_NaN_def default_options_def js_rem_def missing_adr_def invalid_adr_def)

text \<open>
  C8 (amended). \<open>validateRuns\<close> returns the configured default when no run count is
  supplied; a supplied number \<open>x\<close> with \<open>1 \<le> x \<le> maxRuns\<close> is returned as it is,
  whether an integer or not; a number below \<open>1\<close> or above \<open>maxRuns\<close>, and any value
  that is not a number, raises a \<open>TeamGenerationError\<close>.
\<close>

theorem validateRuns_cases:
  "validateRuns this Undefined = Inr (cfg_defaultRuns this) \<and>
   (1 \<le> x \<and> x \<le> cfg_maxRuns this \<longrightarrow> validateRuns this (Number x) = Inr x) \<and>
   (x < 1 \<longrightarrow> validateRuns this (Number x) =
      Inl (TeamGenerationError [Str ''Optimization runs must be a positive number''])) \<and>
   (1 \<le> x \<and> cfg_maxRuns this < x \<longrightarrow> validateRuns this (Number x) =
      Inl (TeamGenerationError
             [Str ''Optimization runs ('', Val x,
              Str '') exceeds maximum allowed ('', Val (cfg_maxRuns this), Str '')''])) \<and>
   validateRuns this Null =
      Inl (TeamGenerationError [Str ''Optimization runs must be a positive number'']) \<and>
   validateRuns this (String t) =
      Inl (TeamGenerationError [Str ''Optimization runs must be a positive number''])"
  by (simp add: validateRuns_def)

theorem validateRuns_cases_witness:
  "validateRuns default_options Undefined = Inr 200 \<and>
   validateRuns default_options (Number 100) = Inr 100 \<and>
   validateRuns default_options (Number 0) =
      Inl (TeamGenerationError [Str ''Optimization runs must be a positive number'']) \<and>
   validateRuns default_options (Number 201) =
      Inl (TeamGenerationError
             [Str ''Optimization runs ('', Val 201,
              Str '') exceeds maximum allowed ('', Val 200, Str '')''])"
  using validateRuns_cases [of default_options 100] validateRuns_cases [of default_options 0]
        validateRuns_cases [of default_options 201]
  by (simp add: default_options_def)

text \<open>A run count of \<open>1.5\<close> is accepted.\<close>

theorem validateRuns_cases_counterexample:
  "(3 / 2 :: real) \<notin> \<int> \<and> validateRuns default_options (Number (3 / 2)) = Inr (3 / 2)"
proof -
  have "frac (3 / 2 :: real) \<noteq> 0"
    by (simp add: frac_def)
  then have "(3 / 2 :: real) \<notin> \<int>"
    using frac_eq_0_iff by blast
  then show ?thesis
    by (simp add: validateRuns_def default_options_def)
qed

section \<open>services: TournamentService.generateTeams\<close>

text \<open>
  The rows \<open>getTournamentPlayers\<close> returns: the rating is a nullable number, the joined
  \<open>player\<close> may be absent, and its \<open>username\<close> and \<open>displayName\<close> are nullable columns.
\<close>

record PlayerRow =
  username_row :: "string option"
  displayName :: "string option"

record TournamentPlayerRow =
  playerId :: string
  adr_row :: "rating option"
  player :: "PlayerRow option"

text \<open>\<open>a || b\<close> on a nullable string: \<open>b\<close> when \<open>a\<close> is absent or empty.\<close>

fun or_else :: "string option \<Rightarrow> string \<Rightarrow> string" where
  "or_else None b = b"
| "or_else (Some a) b = (if a = [] then b else a)"

text \<open>\<open>tp.player?.username\<close> and \<open>tp.player?.displayName\<close>.\<close>

definition player_username :: "TournamentPlayerRow \<Rightarrow> string option" where
  "player_username tp = (case player tp of None \<Rightarrow> None | Some p \<Rightarrow> username_row p)"

definition player_displayName :: "TournamentPlayerRow \<Rightarrow> string option" where
  "player_displayName tp = (case player tp of None \<Rightarrow> None | Some p \<Rightarrow> displayName p)"

text \<open>\<open>tp.player?.displayName || tp.player?.username || "Unknown"\<close>.\<close>

definition nameUsedInTeamGen :: "TournamentPlayerRow \<Rightarrow> string" where
  "nameUsedInTeamGen tp =
     or_else (player_displayName tp) (or_else (player_username tp) ''Unknown'')"

definition toTeamGenPlayer :: "TournamentPlayerRow \<Rightarrow> TournamentPlayer" where
  "toTeamGenPlayer tp =
     \<lparr>id_tp = playerId tp,
      username = or_else (player_username tp) ''Unknown'',
      display_name = Some (nameUsedInTeamGen tp),
      adr_tp = (case adr_row tp of None \<Rightarrow> Null | Some r \<Rightarrow> Number r)\<rparr>"

text \<open>
  \<open>nameToPlayerMap\<close>: a \<open>Map\<close> filled in roster order, a later \<open>set\<close> on the same name
  replacing the earlier entry.
\<close>

definition nameToPlayerMap :: "TournamentPlayerRow list \<Rightarrow> (string \<rightharpoonup> TournamentPlayerRow)" where
  "nameToPlayerMap tournamentPlayers =
     foldl (\<lambda>m tp. m(nameUsedInTeamGen tp \<mapsto> tp)) Map.empty tournamentPlayers"

text \<open>
  Mapping the generated players back: each is looked up by its \<open>username\<close> (the name the
  optimizer was given); the first one that is not found throws.
\<close>

fun map_players ::
  "(string \<rightharpoonup> TournamentPlayerRow) \<Rightarrow> TournamentPlayer list \<Rightarrow> error + TournamentPlayer list"
where
  "map_players m [] = Inr []"
| "map_players m (p # rest) =
     (case m (username p) of
        None \<Rightarrow>
          Inl (TournamentError
                 [Str (''Failed to map generated team player: '' @ username p)]
                 ''PLAYER_MAPPING_FAILED'')
      | Some tournamentPlayer \<Rightarrow>
          (case map_players m rest of
             Inl e \<Rightarrow> Inl e
           | Inr rest' \<Rightarrow> Inr (p\<lparr>id_tp := playerId tournamentPlayer\<rparr> # rest')))"

fun map_teams ::
  "(string \<rightharpoonup> TournamentPlayerRow) \<Rightarrow> GeneratedTeam list \<Rightarrow> error + GeneratedTeam list"
where
  "map_teams m [] = Inr []"
| "map_teams m (team # rest) =
     (case map_players m (players_gt team) of
        Inl e \<Rightarrow> Inl e
      | Inr ps \<Rightarrow>
          (case map_teams m rest of
             Inl e \<Rightarrow> Inl e
           | Inr rest' \<Rightarrow> Inr (team\<lparr>players_gt := ps\<rparr> # rest')))"

text \<open>
  \<open>!playerId || playerId.trim() === ""\<close>. Strings are byte strings here, the UTF-8
  encoding of the source's strings. \<open>trim\<close> removes the white space and line terminator
  code points of ECMAScript: U+0009 to U+000D, U+0020, U+00A0, U+1680, U+2000 to U+200A,
  U+2028, U+2029, U+202F, U+205F, U+3000 and U+FEFF. \<open>js_whitespace\<close> lists their
  encodings. The test holds of the empty string and of a string made of those code points
  only: \<open>blank\<close> removes them from the left, one after the other.
\<close>

definition js_whitespace :: "string list" where
  "js_whitespace =
     [[CHR 0x09], [CHR 0x0A], [CHR 0x0B], [CHR 0x0C], [CHR 0x0D], [CHR 0x20],
      [CHR 0xC2, CHR 0xA0],
      [CHR 0xE1, CHR 0x9A, CHR 0x80],
      [CHR 0xE2, CHR 0x80, CHR 0x80], [CHR 0xE2, CHR 0x80, CHR 0x81],
      [CHR 0xE2, CHR 0x80, CHR 0x82], [CHR 0xE2, CHR 0x80, CHR 0x83],
      [CHR 0xE2, CHR 0x80, CHR 0x84], [CHR 0xE2, CHR 0x80, CHR 0x85],
      [CHR 0xE2, CHR 0x80, CHR 0x86], [CHR 0xE2, CHR 0x80, CHR 0x87],
      [CHR 0xE2, CHR 0x80, CHR 0x88], [CHR 0xE2, CHR 0x80, CHR 0x89],
      [CHR 0xE2, CHR 0x80, CHR 0x8A],
      [CHR 0xE2, CHR 0x80, CHR 0xA8], [CHR 0xE2, CHR 0x80, CHR 0xA9],
      [CHR 0xE2, CHR 0x80, CHR 0xAF],
      [CHR 0xE2, CHR 0x81, CHR 0x9F],
      [CHR 0xE3, CHR 0x80, CHR 0x80],
      [CHR 0xEF, CHR 0xBB, CHR 0xBF]]"

lemma js_whitespace_not_empty: "w \<in> set js_whitespace \<Longrightarrow> w \<noteq> []"
  by (auto simp: js_whitespace_def)

function blank :: "string \<Rightarrow> bool" where
  "blank pid =
     (if pid = [] then True
      else case filter (\<lambda>w. take (length w) pid = w) js_whitespace of
             [] \<Rightarrow> False
           | w # _ \<Rightarrow> blank (drop (length w) pid))"
  by pat_completeness auto

termination
proof (relation "measure length")
  show "wf (measure length)" by simp
next
  fix pid :: string and w ws
  assume ne: "pid \<noteq> []" and f: "filter (\<lambda>w. take (length w) pid = w) js_whitespace = w # ws"
  have "w \<in> set (filter (\<lambda>w. take (length w) pid = w) js_whitespace)"
    using f by simp
  then have "w \<noteq> []"
    using js_whitespace_not_empty by simp
  then show "(drop (length w) pid, pid) \<in> measure length"
    using ne by simp
qed

declare blank.simps [simp del]

fun first_blank_id :: "GeneratedTeam list \<Rightarrow> (string \<times> string) option" where
  "first_blank_id [] = None"
| "first_blank_id (team # rest) =
     (case filter blank (map id_tp (players_gt team)) of
        [] \<Rightarrow> first_blank_id rest
      | pid # _ \<Rightarrow> Some (id_gt team, pid))"

text \<open>
  The \<open>catch\<close> of \<open>generateTeams\<close>: a \<open>TournamentError\<close> or \<open>TeamGenerationError\<close> is
  thrown on, anything else is wrapped.
\<close>

fun rethrow :: "error \<Rightarrow> error" where
  "rethrow (Error m) = TournamentError (Str ''Failed to generate teams: '' # m) ''TEAM_GENERATION_FAILED''"
| "rethrow TypeError =
     TournamentError [Str ''Failed to generate teams: '', TypeErrorText] ''TEAM_GENERATION_FAILED''"
| "rethrow RangeError =
     TournamentError [Str ''Failed to generate teams: '', RangeErrorText] ''TEAM_GENERATION_FAILED''"
| "rethrow e = e"

text \<open>
  \<open>generateTeams\<close>, from the roster read from the database to the teams handed to
  \<open>createTeams\<close>. The tournament, the lock state and the persistence are the
  collaborators' and are left out; \<open>tournamentPlayers\<close> is the roster they deliver.
\<close>

definition generateTeams ::
  "Options \<Rightarrow> 's random \<Rightarrow> real \<Rightarrow> TournamentPlayerRow list \<Rightarrow> jsvalue \<Rightarrow> 's
     \<Rightarrow> ((error + GeneratedTeam list) \<times> 's) option"
where
  "generateTeams teamGenService random executionTime tournamentPlayers runs s =
     (let playersWithoutAdr = filter (\<lambda>p. adr_row p = None) tournamentPlayers in
      if length playersWithoutAdr > 0 then
        Some (Inl (TournamentError
                [Str (''Players missing ADR: '' @
                      join (map (\<lambda>p. or_else (player_username p) (playerId p)) playersWithoutAdr))]
                ''PLAYERS_MISSING_ADR''), s)
      else if js_rem (int (length tournamentPlayers)) 5 \<noteq> Some 0 then
        Some (Inl (TournamentError
                [Str ''Player count ('', Val (real (length tournamentPlayers)),
                 Str '') must be divisible by 5 for team generation'']
                ''INVALID_PLAYER_COUNT''), s)
      else
        let teamGenPlayers = map toTeamGenPlayer tournamentPlayers in
        case generateBalancedTeams teamGenService random executionTime teamGenPlayers runs s of
          None \<Rightarrow> None
        | Some (Inl e, s') \<Rightarrow> Some (Inl (rethrow e), s')
        | Some (Inr result, s') \<Rightarrow>
            (case map_teams (nameToPlayerMap tournamentPlayers) (teams_gr result) of
               Inl e \<Rightarrow> Some (Inl e, s')
             | Inr teamsWithPlayerIds \<Rightarrow>
                 (case first_blank_id teamsWithPlayerIds of
                    Some (teamId, pid) \<Rightarrow>
                      Some (Inl (TournamentError
                              [Str (''Invalid player ID found in team '' @ teamId @ '': '' @
                                    [CHR 0x22] @ pid @ [CHR 0x22])]
                              ''INVALID_PLAYER_ID''), s')
                  | None \<Rightarrow> Some (Inr teamsWithPlayerIds, s'))))"

text \<open>The identifiers of the members of all teams, in output order.\<close>

definition member_ids :: "GeneratedTeam list \<Rightarrow> string list" where
  "member_ids ts = concat (map (\<lambda>team. map id_tp (players_gt team)) ts)"

subsection \<open>From the roster to the mapped teams\<close>

definition valid_rating :: "real \<Rightarrow> bool" where
  "valid_rating x \<longleftrightarrow> 0 \<le> x \<and> x \<le> 999.99"

lemma validatePlayers_ok:
  assumes "ps \<noteq> []" and "js_rem (int (length ps)) (cfg_teamSize this) = Some 0"
    and "\<forall>p \<in> set ps. \<exists>x. adr_tp p = Number (Finite x) \<and> valid_rating x"
  shows "validatePlayers this ps = Inr ()"
proof -
  have "filter missing_adr ps = []"
    using assms(3) by (auto simp: filter_empty_conv missing_adr_def)
  moreover have "filter invalid_adr ps = []"
    using assms(3) by (auto simp: filter_empty_conv invalid_adr_def valid_rating_def)
  ultimately show ?thesis
    using assms(1,2) by (simp add: validatePlayers_def)
qed

lemma convertToTeamgenFormat_Some:
  "convertToTeamgenFormat ps = Some roster \<Longrightarrow>
   length roster = length ps \<and> map name roster = map label_of ps \<and>
   map (\<lambda>p. Number (Finite (adr p))) roster = map adr_tp ps"
proof (induction ps arbitrary: roster)
  case Nil
  then show ?case by simp
next
  case (Cons p ps)
  obtain x rest where x: "number_of (adr_tp p) = Some x"
    and r: "convertToTeamgenFormat ps = Some rest"
    and ro: "roster = \<lparr>name = label_of p, adr = x\<rparr> # rest"
    using Cons.prems by (auto split: option.splits)
  have "adr_tp p = Number (Finite x)"
    using x by (cases "adr_tp p" rule: number_of.cases) simp_all
  then show ?case
    using Cons.IH [OF r] ro by simp
qed

lemma generateBalancedTeams_success:
  assumes "validatePlayers this ps = Inr ()" and "validateRuns this runs = Inr r"
    and "0 < r" and "0 < cfg_teamSize this" and "int (length ps) \<noteq> cfg_teamSize this"
    and "convertToTeamgenFormat ps = Some roster"
  shows "\<exists>ts s'. generateBalancedTeams this random t ps runs s =
           Some (Inr \<lparr>teams_gr = convertFromTeamgenFormat ts,
                      adr_difference = max_minus_min (map totalAdr ts),
                      optimization_runs = r\<rparr>, s') \<and>
           is_partition roster (cfg_teamSize this) ts"
proof -
  let ?it = "min 500 \<lfloor>10000 / r\<rfloor>"
  have lr: "length roster = length ps"
    using convertToTeamgenFormat_Some [OF assms(6)] by simp
  have ne: "ps \<noteq> []" and j: "js_rem (int (length ps)) (cfg_teamSize this) = Some 0"
    using assms(1) by (auto simp: validatePlayers_def split: if_splits)
  have "cfg_teamSize this dvd int (length ps)"
    using j by (simp add: js_rem_Some_0_iff)
  then have v: "valid_roster roster (cfg_teamSize this)"
    using ne assms(4) lr by (auto simp: valid_roster_def)
  have len: "int (length roster) \<noteq> cfg_teamSize this"
    using assms(5) lr by simp
  obtain res s' where o: "optimizeTeams random roster (cfg_teamSize this) ?it r s = (res, s')"
    by (cases "optimizeTeams random roster (cfg_teamSize this) ?it r s")
  have spec: "case (res, s') of
           (Inl e, s') \<Rightarrow> e = TypeError \<and> int (length roster) = cfg_teamSize this \<and> 0 < ?it
         | (Inr r, s') \<Rightarrow>
             is_partition roster (cfg_teamSize this) (teams r) \<and> sums_consistent (teams r) \<and>
             adrDiff r = max_minus_min (map totalAdr (teams r))"
    using optimizeTeams_spec [OF v assms(3), of random s ?it] o by (cases res) auto
  then obtain x where x: "res = Inr x" using len by (cases res) auto
  then have "is_partition roster (cfg_teamSize this) (teams x)"
    and "adrDiff x = max_minus_min (map totalAdr (teams x))"
    using spec by simp_all
  then show ?thesis
    using assms(1,2,6) o x by (auto simp: generateBalancedTeams_def Let_def)
qed

text \<open>
  A roster of exactly one team never gets through the service with its default options:
  the iteration budget is at least 50, so the search is entered and throws.
\<close>

lemma generateBalancedTeams_single_team:
  assumes "validatePlayers default_options ps = Inr ()" and "length ps = 5"
    and "validateRuns default_options runs = Inr r" and "executionTime \<le> 20000"
    and "convertToTeamgenFormat ps = Some roster"
  shows "\<exists>s'. generateBalancedTeams default_options random executionTime ps runs s
                = Some (Inl TypeError, s')"
proof -
  have r: "1 \<le> r" "r \<le> 200"
    using assms(3)
    by (cases runs; simp add: validateRuns_def default_options_def split: if_splits)+
  have "50 \<le> 10000 / r"
    using r by (simp add: pos_le_divide_eq)
  then have "50 \<le> \<lfloor>10000 / r\<rfloor>"
    by (simp add: le_floor_iff)
  then have it: "0 < min 500 \<lfloor>10000 / r\<rfloor>" by simp
  have lr: "length roster = 5"
    using convertToTeamgenFormat_Some [OF assms(5)] assms(2) by simp
  then have "roster \<noteq> []" by auto
  then have v: "valid_roster roster 5" and l: "int (length roster) = 5"
    using lr by (simp_all add: valid_roster_def)
  have "0 < r" using r by simp
  then have "fst (optimizeTeams random roster 5 (min 500 \<lfloor>10000 / r\<rfloor>) r s) = Inl TypeError"
    by (rule single_team_throws [OF v l it])
  then show ?thesis
    using assms(1,3,4,5)
    by (simp add: generateBalancedTeams_def default_options_def Let_def split_beta
             split: sum.splits prod.splits)
qed

text \<open>The players of the converted teams carry the optimizer's names as usernames.\<close>

definition fromTeamgenPlayer :: "Player \<Rightarrow> TournamentPlayer" where
  "fromTeamgenPlayer p =
     \<lparr>id_tp = '''', username = name p, display_name = Some (name p),
      adr_tp = Number (Finite (adr p))\<rparr>"

lemma players_gt_convertFrom:
  "map players_gt (convertFromTeamgenFormat ts) = map (\<lambda>team. map fromTeamgenPlayer (players team)) ts"
proof -
  have "map players_gt (convertFromTeamgenFormat ts)
        = map ((\<lambda>team. map fromTeamgenPlayer (players team)) \<circ> fst) (zip ts [0..<length ts])"
    by (simp add: convertFromTeamgenFormat_def fromTeamgenPlayer_def split_beta Let_def comp_def)
  also have "\<dots> = map (\<lambda>team. map fromTeamgenPlayer (players team)) ts"
    by (rule nth_equalityI) simp_all
  finally show ?thesis .
qed

lemma generated_players:
  "concat (map players_gt (convertFromTeamgenFormat ts)) = map fromTeamgenPlayer (all_players ts)"
  by (simp add: players_gt_convertFrom all_players_def map_concat comp_def)

text \<open>
  The mapping back, when every name is found: each generated player gets the identifier
  of the row that \<open>nameToPlayerMap\<close> holds for its username, and nothing else changes.
\<close>

definition with_id :: "(string \<rightharpoonup> TournamentPlayerRow) \<Rightarrow> TournamentPlayer \<Rightarrow> TournamentPlayer" where
  "with_id m p = p\<lparr>id_tp := playerId (the (m (username p)))\<rparr>"

definition with_ids :: "(string \<rightharpoonup> TournamentPlayerRow) \<Rightarrow> GeneratedTeam \<Rightarrow> GeneratedTeam" where
  "with_ids m team = team\<lparr>players_gt := map (with_id m) (players_gt team)\<rparr>"

lemma map_players_ok:
  assumes "\<forall>p \<in> set ps. m (username p) \<noteq> None"
  shows "map_players m ps = Inr (map (with_id m) ps)"
  using assms by (induction ps) (auto simp: with_id_def)

lemma map_teams_ok:
  assumes "\<forall>p \<in> set (concat (map players_gt gts)). m (username p) \<noteq> None"
  shows "map_teams m gts = Inr (map (with_ids m) gts)"
  using assms
proof (induction gts)
  case Nil
  then show ?case by simp
next
  case (Cons g gts)
  have "map_players m (players_gt g) = Inr (map (with_id m) (players_gt g))"
    using map_players_ok [of "players_gt g" m] Cons.prems by auto
  moreover have "map_teams m gts = Inr (map (with_ids m) gts)"
    using Cons.IH Cons.prems by auto
  ultimately show ?case
    by (simp add: with_ids_def)
qed

lemma member_ids_with_ids:
  "member_ids (map (with_ids m) gts)
   = map (\<lambda>p. playerId (the (m (username p)))) (concat (map players_gt gts))"
  by (induction gts) (simp_all add: member_ids_def with_ids_def with_id_def)

lemma nameToPlayerMap_snoc:
  "nameToPlayerMap (rows @ [tp]) = (nameToPlayerMap rows)(nameUsedInTeamGen tp \<mapsto> tp)"
  by (simp add: nameToPlayerMap_def)

lemma nameToPlayerMap_Some:
  "nameToPlayerMap rows k = Some tp \<Longrightarrow> tp \<in> set rows \<and> nameUsedInTeamGen tp = k"
proof (induction rows arbitrary: tp rule: rev_induct)
  case Nil
  then show ?case by (simp add: nameToPlayerMap_def)
next
  case (snoc x rows)
  then show ?case
    by (auto simp: nameToPlayerMap_snoc split: if_splits)
qed

lemma nameToPlayerMap_dom:
  "tp \<in> set rows \<Longrightarrow> nameToPlayerMap rows (nameUsedInTeamGen tp) \<noteq> None"
  by (induction rows rule: rev_induct) (auto simp: nameToPlayerMap_snoc)

lemma nameToPlayerMap_distinct:
  assumes "distinct (map nameUsedInTeamGen rows)" and "tp \<in> set rows"
  shows "nameToPlayerMap rows (nameUsedInTeamGen tp) = Some tp"
proof -
  obtain tp' where s: "nameToPlayerMap rows (nameUsedInTeamGen tp) = Some tp'"
    using nameToPlayerMap_dom [OF assms(2)] by auto
  then have "tp' \<in> set rows" "nameUsedInTeamGen tp' = nameUsedInTeamGen tp"
    using nameToPlayerMap_Some by blast+
  then have "tp' = tp"
    using assms by (meson distinct_map inj_onD)
  then show ?thesis using s by simp
qed

lemma nameUsedInTeamGen_not_empty: "nameUsedInTeamGen tp \<noteq> []"
proof -
  have "or_else a b \<noteq> []" if "b \<noteq> []" for a b
    using that by (cases a) auto
  then show ?thesis
    by (simp add: nameUsedInTeamGen_def)
qed

lemma label_of_toTeamGenPlayer: "label_of (toTeamGenPlayer tp) = nameUsedInTeamGen tp"
  using nameUsedInTeamGen_not_empty [of tp] by (simp add: label_of_def toTeamGenPlayer_def)

lemma first_blank_id_None:
  assumes "\<forall>pid \<in> set (member_ids ts). \<not> blank pid"
  shows "first_blank_id ts = None"
  using assms
proof (induction ts)
  case Nil
  then show ?case by simp
next
  case (Cons t ts)
  have "filter blank (map id_tp (players_gt t)) = []"
    using Cons.prems by (auto simp: filter_empty_conv member_ids_def)
  then show ?case
    using Cons by (simp add: member_ids_def)
qed

text \<open>
  The participant as the optimizer sees it: the display label for a name, and the rating.
\<close>

definition optimizer_view :: "TournamentPlayerRow \<Rightarrow> Player" where
  "optimizer_view tp =
     \<lparr>name = nameUsedInTeamGen tp, adr = the (number_of (adr_tp (toTeamGenPlayer tp)))\<rparr>"

lemma convertToTeamgenFormat_rows:
  assumes "\<forall>tp \<in> set rows. \<exists>x. adr_row tp = Some (Finite x)"
  shows "convertToTeamgenFormat (map toTeamGenPlayer rows) = Some (map optimizer_view rows)"
  using assms
proof (induction rows)
  case Nil
  then show ?case by simp
next
  case (Cons tp rows)
  obtain x where x: "adr_row tp = Some (Finite x)"
    using Cons.prems by auto
  then have "number_of (adr_tp (toTeamGenPlayer tp)) = Some x"
    by (simp add: toTeamGenPlayer_def)
  then show ?case
    using Cons by (simp add: optimizer_view_def label_of_toTeamGenPlayer)
qed

text \<open>
  What \<open>generateTeams\<close> returns on a roster of at least two teams of five with valid
  ratings: the converted teams of a partition of the roster as the optimizer sees it, each
  member with the identifier of the row that \<open>nameToPlayerMap\<close> holds for its name.
\<close>

lemma generateTeams_result:
  assumes rt: "\<forall>tp \<in> set rows. \<exists>x. adr_row tp = Some (Finite x) \<and> valid_rating x"
    and len: "length rows = 5 * n" "2 \<le> n"
    and ts5: "cfg_teamSize this = 5"
    and vr: "validateRuns this runs = Inr r" "0 < r"
    and ids: "\<forall>tp \<in> set rows. \<not> blank (playerId tp)"
  shows "\<exists>ts s'. generateTeams this random t rows runs s
                    = Some (Inr (map (with_ids (nameToPlayerMap rows)) (convertFromTeamgenFormat ts)),
                            s') \<and>
                  is_partition (map optimizer_view rows) 5 ts"
proof -
  let ?ps = "map toTeamGenPlayer rows"
  let ?m = "nameToPlayerMap rows"
  let ?f = "\<lambda>p. playerId (the (?m (name p)))"
  have ne: "rows \<noteq> []" using len by auto
  have none_missing: "filter (\<lambda>p. adr_row p = None) rows = []"
    using rt by (auto simp: filter_empty_conv)
  have j: "js_rem (int (length rows)) 5 = Some 0"
    unfolding js_rem_Some_0_iff using len by simp
  have "\<forall>p \<in> set ?ps. \<exists>x. adr_tp p = Number (Finite x) \<and> valid_rating x"
    using rt by (auto simp: toTeamGenPlayer_def)
  then have vp: "validatePlayers this ?ps = Inr ()"
    using ne j ts5 by (intro validatePlayers_ok) simp_all
  have cv: "convertToTeamgenFormat ?ps = Some (map optimizer_view rows)"
    using rt by (intro convertToTeamgenFormat_rows) auto
  have "int (length ?ps) \<noteq> cfg_teamSize this"
    using len ts5 by simp
  then obtain ts s' where g: "generateBalancedTeams this random t ?ps runs s =
           Some (Inr \<lparr>teams_gr = convertFromTeamgenFormat ts,
                      adr_difference = max_minus_min (map totalAdr ts),
                      optimization_runs = r\<rparr>, s')"
    and part: "is_partition (map optimizer_view rows) (cfg_teamSize this) ts"
    using generateBalancedTeams_success [OF vp vr _ _ cv, of random t s] ts5 by auto
  have ms: "mset (all_players ts) = mset (map optimizer_view rows)"
    using part by (simp add: is_partition_def)
  have found: "?m (name p) \<noteq> None" if "p \<in> set (all_players ts)" for p
  proof -
    have "p \<in> set (map optimizer_view rows)"
      using that mset_eq_setD [OF ms] by simp
    then obtain tp where "tp \<in> set rows" "name p = nameUsedInTeamGen tp"
      by (auto simp: optimizer_view_def)
    then show ?thesis
      using nameToPlayerMap_dom by auto
  qed
  let ?gts = "convertFromTeamgenFormat ts"
  let ?out = "map (with_ids ?m) ?gts"
  have "\<forall>p \<in> set (concat (map players_gt ?gts)). ?m (username p) \<noteq> None"
    using found by (auto simp: generated_players fromTeamgenPlayer_def)
  then have mt: "map_teams ?m ?gts = Inr ?out"
    by (rule map_teams_ok)
  have mi: "member_ids ?out = map ?f (all_players ts)"
    by (simp add: member_ids_with_ids generated_players fromTeamgenPlayer_def comp_def)
  have "\<not> blank pid" if "pid \<in> set (member_ids ?out)" for pid
  proof -
    have "pid \<in> ?f ` set (all_players ts)"
      using that mi by simp
    then obtain p where p: "p \<in> set (all_players ts)" "pid = ?f p"
      by blast
    obtain tp where "?m (name p) = Some tp"
      using found [OF p(1)] by auto
    then show ?thesis
      using nameToPlayerMap_Some [of rows "name p" tp] ids p(2) by auto
  qed
  then have fb: "first_blank_id ?out = None"
    by (intro first_blank_id_None) simp
  have "generateTeams this random t rows runs s = Some (Inr ?out, s')"
    using none_missing j g mt fb by (simp add: generateTeams_def Let_def)
  then show ?thesis
    using part ts5 by auto
qed

text \<open>The identifiers in the returned teams, as a multiset.\<close>

lemma generateTeams_ids:
  assumes "is_partition (map optimizer_view rows) 5 ts"
  shows "mset (member_ids (map (with_ids (nameToPlayerMap rows)) (convertFromTeamgenFormat ts)))
         = mset (map (\<lambda>tp. playerId (the (nameToPlayerMap rows (nameUsedInTeamGen tp)))) rows)"
proof -
  let ?m = "nameToPlayerMap rows"
  let ?f = "\<lambda>p. playerId (the (?m (name p)))"
  have ms: "mset (all_players ts) = mset (map optimizer_view rows)"
    using assms by (simp add: is_partition_def)
  have "member_ids (map (with_ids ?m) (convertFromTeamgenFormat ts)) = map ?f (all_players ts)"
    by (simp add: member_ids_with_ids generated_players fromTeamgenPlayer_def comp_def)
  then have "mset (member_ids (map (with_ids ?m) (convertFromTeamgenFormat ts)))
             = image_mset ?f (mset (all_players ts))"
    by simp
  also have "\<dots> = image_mset ?f (mset (map optimizer_view rows))"
    by (simp only: ms)
  also have "\<dots> = mset (map ?f (map optimizer_view rows))"
    by (simp only: mset_map)
  also have "map ?f (map optimizer_view rows)
             = map (\<lambda>tp. playerId (the (?m (nameUsedInTeamGen tp)))) rows"
    by (simp add: optimizer_view_def comp_def)
  finally show ?thesis .
qed

text \<open>
  When the labels of the roster are pairwise distinct (and the roster has at least two
  teams of five, valid ratings, an accepted run count and no blank identifier), the
  mapping by label finds every participant again: the identifiers in the returned teams
  are those of the roster, each as often as the roster has it, and every member of a
  returned team carries the identifier and the rating of the participant whose label is
  its username.
\<close>

lemma generateTeams_distinct_labels:
  assumes "\<forall>tp \<in> set rows. \<exists>x. adr_row tp = Some (Finite x) \<and> valid_rating x"
    and "length rows = 5 * n" and "2 \<le> n"
    and "cfg_teamSize this = 5"
    and "validateRuns this runs = Inr r" and "0 < r"
    and "\<forall>tp \<in> set rows. \<not> blank (playerId tp)"
    and "distinct (map nameUsedInTeamGen rows)"
  shows "\<exists>out s'. generateTeams this random t rows runs s = Some (Inr out, s') \<and>
           mset (member_ids out) = mset (map playerId rows) \<and>
           (\<forall>p \<in> set (concat (map players_gt out)).
              \<exists>tp \<in> set rows. nameUsedInTeamGen tp = username p \<and> playerId tp = id_tp p \<and>
                               adr_row tp = Some (Finite (the (number_of (adr_tp p)))))"
proof -
  let ?m = "nameToPlayerMap rows"
  obtain ts s' where
    g: "generateTeams this random t rows runs s
          = Some (Inr (map (with_ids ?m) (convertFromTeamgenFormat ts)), s')"
    and part: "is_partition (map optimizer_view rows) 5 ts"
    using generateTeams_result [OF assms(1-7), of random t s] by blast
  let ?out = "map (with_ids ?m) (convertFromTeamgenFormat ts)"
  have eq: "map (\<lambda>tp. playerId (the (?m (nameUsedInTeamGen tp)))) rows = map playerId rows"
    using nameToPlayerMap_distinct [OF assms(8)] by simp
  have ids: "mset (member_ids ?out) = mset (map playerId rows)"
    using generateTeams_ids [OF part] by (simp only: eq)
  have ms: "mset (all_players ts) = mset (map optimizer_view rows)"
    using part by (simp add: is_partition_def)
  have "concat (map players_gt ?out)
        = map (with_id ?m) (concat (map players_gt (convertFromTeamgenFormat ts)))"
    by (simp add: with_ids_def map_concat comp_def)
  then have members: "concat (map players_gt ?out)
                 = map (with_id ?m \<circ> fromTeamgenPlayer) (all_players ts)"
    by (simp add: generated_players)
  have "\<exists>tp \<in> set rows. nameUsedInTeamGen tp = username p \<and> playerId tp = id_tp p \<and>
                         adr_row tp = Some (Finite (the (number_of (adr_tp p))))"
    if "p \<in> set (concat (map players_gt ?out))" for p
  proof -
    have "p \<in> set (map (with_id ?m \<circ> fromTeamgenPlayer) (all_players ts))"
      using that by (simp only: members)
    then obtain q where q: "q \<in> set (all_players ts)" "p = with_id ?m (fromTeamgenPlayer q)"
      by auto
    have "q \<in> set (map optimizer_view rows)"
      using q(1) mset_eq_setD [OF ms] by simp
    then obtain tp where tp: "tp \<in> set rows" "q = optimizer_view tp"
      by auto
    obtain x where x: "adr_row tp = Some (Finite x)"
      using assms(1) tp(1) by auto
    have "?m (nameUsedInTeamGen tp) = Some tp"
      using nameToPlayerMap_distinct [OF assms(8) tp(1)] .
    then have "nameUsedInTeamGen tp = username p \<and> playerId tp = id_tp p \<and>
               adr_row tp = Some (Finite (the (number_of (adr_tp p))))"
      using q(2) tp(2) x
      by (simp add: with_id_def fromTeamgenPlayer_def optimizer_view_def toTeamGenPlayer_def)
    then show ?thesis
      using tp(1) by blast
  qed
  then show ?thesis
    using g ids by blast
qed

definition demo_row :: "string \<Rightarrow> string \<Rightarrow> real \<Rightarrow> TournamentPlayerRow" where
  "demo_row pid label rating =
     \<lparr>playerId = pid, adr_row = Some (Finite rating),
      player = Some \<lparr>username_row = Some pid, displayName = Some label\<rparr>\<rparr>"

definition demo_rows :: "TournamentPlayerRow list" where
  "demo_rows =
     [demo_row ''u0'' ''Ann'' 50, demo_row ''u1'' ''Bob'' 60, demo_row ''u2'' ''Cat'' 70,
      demo_row ''u3'' ''Dan'' 80, demo_row ''u4'' ''Eve'' 90, demo_row ''u5'' ''Fay'' 100,
      demo_row ''u6'' ''Gus'' 110, demo_row ''u7'' ''Hal'' 120, demo_row ''u8'' ''Ida'' 130,
      demo_row ''u9'' ''Jon'' 140]"

text \<open>The same roster, the second participant being another \<open>Ann\<close>.\<close>

definition demo_rows_two_anns :: "TournamentPlayerRow list" where
  "demo_rows_two_anns = demo_rows[1 := demo_row ''u1'' ''Ann'' 60]"

lemma demo_row_simps [simp]:
  "playerId (demo_row pid label rating) = pid"
  "adr_row (demo_row pid label rating) = Some (Finite rating)"
  "label \<noteq> [] \<Longrightarrow> nameUsedInTeamGen (demo_row pid label rating) = label"
  by (simp_all add: demo_row_def nameUsedInTeamGen_def player_displayName_def)

lemma not_blank_u [simp]: "\<not> blank (CHR ''u'' # rest)"
  by (simp add: blank.simps [of "CHR ''u'' # rest"] js_whitespace_def)

lemma generateTeams_distinct_labels_demo:
  "\<exists>out s'. generateTeams default_options demo_random 0 demo_rows Undefined (0 :: nat)
              = Some (Inr out, s') \<and>
            mset (member_ids out) = mset (map playerId demo_rows)"
proof -
  have 1: "\<forall>tp \<in> set demo_rows. \<exists>x. adr_row tp = Some (Finite x) \<and> valid_rating x"
    by (simp add: demo_rows_def valid_rating_def)
  have 2: "length demo_rows = 5 * 2" "(2 :: nat) \<le> 2"
    by (simp_all add: demo_rows_def)
  have 3: "cfg_teamSize default_options = 5"
    and 4: "validateRuns default_options Undefined = Inr 200" "(0 :: real) < 200"
    by (simp_all add: default_options_def validateRuns_def)
  have 5: "\<forall>tp \<in> set demo_rows. \<not> blank (playerId tp)"
    by (simp add: demo_rows_def)
  have 6: "distinct (map nameUsedInTeamGen demo_rows)"
    by (simp add: demo_rows_def)
  show ?thesis
    using generateTeams_distinct_labels [OF 1 2 3 4 5 6, of demo_random 0 0] by blast
qed

text \<open>
  C3. A roster of ten participants with ten different identifiers, valid ratings and the
  default options, the first two of them both labelled \<open>Ann\<close>: \<open>generateTeams\<close> returns
  teams in which the identifier \<open>u0\<close> of the first \<open>Ann\<close> is in no team and the
  identifier \<open>u1\<close> of the second occurs twice. The optimizer was given the labels as the
  participants' names, and the identifiers were looked up again by label.
\<close>

theorem generateTeams_same_label:
  "distinct (map playerId demo_rows_two_anns) \<and>
   map nameUsedInTeamGen demo_rows_two_anns
     = [''Ann'', ''Ann'', ''Cat'', ''Dan'', ''Eve'', ''Fay'', ''Gus'', ''Hal'', ''Ida'', ''Jon''] \<and>
   (case generateTeams default_options demo_random 0 demo_rows_two_anns Undefined (0 :: nat) of
      None \<Rightarrow> False
    | Some (Inl e, s') \<Rightarrow> False
    | Some (Inr out, s') \<Rightarrow>
        count (mset (member_ids out)) ''u0'' = 0 \<and> count (mset (member_ids out)) ''u1'' = 2)"
proof -
  have 1: "\<forall>tp \<in> set demo_rows_two_anns. \<exists>x. adr_row tp = Some (Finite x) \<and> valid_rating x"
    by (simp add: demo_rows_two_anns_def demo_rows_def valid_rating_def)
  have 2: "length demo_rows_two_anns = 5 * 2" "(2 :: nat) \<le> 2"
    by (simp_all add: demo_rows_two_anns_def demo_rows_def)
  have 3: "cfg_teamSize default_options = 5"
    and 4: "validateRuns default_options Undefined = Inr 200" "(0 :: real) < 200"
    by (simp_all add: default_options_def validateRuns_def)
  have 5: "\<forall>tp \<in> set demo_rows_two_anns. \<not> blank (playerId tp)"
    by (simp add: demo_rows_two_anns_def demo_rows_def)
  let ?m = "nameToPlayerMap demo_rows_two_anns"
  obtain ts s' where
    g: "generateTeams default_options demo_random 0 demo_rows_two_anns Undefined (0 :: nat)
          = Some (Inr (map (with_ids ?m) (convertFromTeamgenFormat ts)), s')"
    and part: "is_partition (map optimizer_view demo_rows_two_anns) 5 ts"
    using generateTeams_result [OF 1 2 3 4 5, of demo_random 0 0] by blast
  let ?out = "map (with_ids ?m) (convertFromTeamgenFormat ts)"
  have "map (\<lambda>tp. playerId (the (?m (nameUsedInTeamGen tp)))) demo_rows_two_anns
        = [''u1'', ''u1'', ''u2'', ''u3'', ''u4'', ''u5'', ''u6'', ''u7'', ''u8'', ''u9'']"
    by (simp add: demo_rows_two_anns_def demo_rows_def nameToPlayerMap_def)
  then have "mset (member_ids ?out)
             = mset [''u1'', ''u1'', ''u2'', ''u3'', ''u4'', ''u5'', ''u6'', ''u7'', ''u8'', ''u9'']"
    using generateTeams_ids [OF part] by simp
  then have c: "count (mset (member_ids ?out)) ''u0'' = 0 \<and> count (mset (member_ids ?out)) ''u1'' = 2"
    by simp
  have d: "distinct (map playerId demo_rows_two_anns)"
    by (simp add: demo_rows_two_anns_def demo_rows_def)
  have l: "map nameUsedInTeamGen demo_rows_two_anns
     = [''Ann'', ''Ann'', ''Cat'', ''Dan'', ''Eve'', ''Fay'', ''Gus'', ''Hal'', ''Ida'', ''Jon'']"
    by (simp add: demo_rows_two_anns_def demo_rows_def)
  show ?thesis
    using g c d l by simp
qed

section \<open>The caller's array\<close>

text \<open>
  \<open>shuffle\<close> exchanges entries of the array it is given. To see which array that is, the
  arrays of participants live in a store here: an address is a position in the store, and
  \<open>[...players]\<close> allocates a new array at the next free address. \<open>computeTeams\<close> only
  reads the array it is given, and the teams' own arrays are created inside it, so teams
  stay values as before.
\<close>

type_synonym 'a store = "'a list list"

definition alloc :: "'a list \<Rightarrow> 'a store \<Rightarrow> nat \<times> 'a store" where
  "alloc xs st = (length st, st @ [xs])"

primrec shuffle_store_loop ::
  "'s random \<Rightarrow> nat \<Rightarrow> nat \<Rightarrow> 'a store \<Rightarrow> 's \<Rightarrow> 'a store \<times> 's"
where
  "shuffle_store_loop random 0 array st s = (st, s)"
| "shuffle_store_loop random (Suc k) array st s =
     (let i = Suc k;
          (u, s') = random s;
          j = floor_times u (i + 1);
          temp = st ! array ! i;
          st1 = st[array := (st ! array)[i := st ! array ! j]];
          st2 = st1[array := (st1 ! array)[j := temp]]
      in shuffle_store_loop random k array st2 s')"

definition shuffle_store :: "'s random \<Rightarrow> nat \<Rightarrow> 'a store \<Rightarrow> 's \<Rightarrow> 'a store \<times> 's" where
  "shuffle_store random array st s =
     shuffle_store_loop random (length (st ! array) - 1) array st s"

function run_loop_store ::
  "'s random \<Rightarrow> nat \<Rightarrow> int \<Rightarrow> int \<Rightarrow> real \<Rightarrow> nat \<Rightarrow> Team list \<Rightarrow> jsnumber \<Rightarrow> Player store \<Rightarrow> 's
     \<Rightarrow> (error + Teams_Result) \<times> Player store \<times> 's"
where
  "run_loop_store random roster teamSize maxNoImprovement runs run bestTeams bestDiff st s =
     (if real run < runs then
        (let (shuffled, st1) = alloc (st ! roster) st;
             (st2, s1) = shuffle_store random shuffled st1 s
         in case computeTeams (st2 ! shuffled) teamSize of
              Inl e \<Rightarrow> (Inl e, st2, s1)
            | Inr (ts, curDiff) \<Rightarrow>
                (case search random maxNoImprovement ts curDiff 0 s1 of
                   (Inl e, s2) \<Rightarrow> (Inl e, st2, s2)
                 | (Inr (ts', curDiff'), s2) \<Rightarrow>
                     if curDiff' < bestDiff
                     then run_loop_store random roster teamSize maxNoImprovement runs (run + 1)
                            ts' curDiff' st2 s2
                     else run_loop_store random roster teamSize maxNoImprovement runs (run + 1)
                            bestTeams bestDiff st2 s2))
      else (Inr \<lparr>teams = bestTeams, adrDiff = bestDiff\<rparr>, st, s))"
  by pat_completeness auto
termination
proof (relation "measure (\<lambda>(random, roster, teamSize, maxNo, runs, run, bestTeams, bestDiff, st, s).
                   nat \<lceil>runs\<rceil> - run)", goal_cases)
  case 1
  show ?case by simp
next
  case (2 random roster teamSize maxNo runs run)
  then have "run < nat \<lceil>runs\<rceil>" by linarith
  then show ?case by simp
next
  case (3 random roster teamSize maxNo runs run)
  then have "run < nat \<lceil>runs\<rceil>" by linarith
  then show ?case by simp
qed

declare run_loop_store.simps [simp del]

text \<open>\<open>optimizeTeams\<close> on the store; \<open>roster\<close> is the address of the caller's array.\<close>

definition optimizeTeams_store ::
  "'s random \<Rightarrow> nat \<Rightarrow> int \<Rightarrow> int \<Rightarrow> real \<Rightarrow> Player store \<Rightarrow> 's
     \<Rightarrow> (error + Teams_Result) \<times> Player store \<times> 's"
where
  "optimizeTeams_store random roster teamSize maxNoImprovement runs st s =
     (if js_rem (int (length (st ! roster))) teamSize \<noteq> Some 0
      then (Inl (Error [Str ''Player count must be a multiple of '', Val (of_int teamSize)]), st, s)
      else run_loop_store random roster teamSize maxNoImprovement runs 0 [] PosInf st s)"

lemma shuffle_store_loop_spec:
  assumes "a < length st"
  shows "shuffle_store_loop random k a st s
         = (st[a := fst (shuffle_loop random k (st ! a) s)], snd (shuffle_loop random k (st ! a) s))"
  using assms
proof (induction k arbitrary: st s)
  case 0
  then show ?case by simp
next
  case (Suc k)
  obtain u s' where r: "random s = (u, s')" by (cases "random s")
  let ?j = "floor_times u (Suc k + 1)"
  let ?xs = "(st ! a)[Suc k := st ! a ! ?j, ?j := st ! a ! Suc k]"
  let ?st2 = "st[a := ?xs]"
  have "shuffle_store_loop random (Suc k) a st s = shuffle_store_loop random k a ?st2 s'"
    using r Suc.prems by (simp add: Let_def)
  also have "\<dots> = (?st2[a := fst (shuffle_loop random k (?st2 ! a) s')],
                    snd (shuffle_loop random k (?st2 ! a) s'))"
    using Suc.IH [of ?st2 s'] Suc.prems by simp
  also have "\<dots> = (st[a := fst (shuffle_loop random k ?xs s')], snd (shuffle_loop random k ?xs s'))"
    using Suc.prems by simp
  finally show ?case
    using r by (simp add: Let_def)
qed

lemma shuffle_store_spec:
  assumes "a < length st"
  shows "shuffle_store random a st s
         = (st[a := fst (shuffle random (st ! a) s)], snd (shuffle random (st ! a) s))"
  using shuffle_store_loop_spec [OF assms] by (simp add: shuffle_store_def shuffle_def)

text \<open>
  One run on the store: the copy is allocated behind the existing arrays and shuffled
  there; every array that existed before is as it was.
\<close>

lemma copy_and_shuffle:
  "(case alloc (st ! p) st of (shuffled, st1) \<Rightarrow> shuffle_store random shuffled st1 s)
   = (st @ [fst (shuffle random (st ! p) s)], snd (shuffle random (st ! p) s))"
  using shuffle_store_spec [of "length st" "st @ [st ! p]" random s]
  by (simp add: alloc_def)

lemma run_loop_store_stop:
  "\<not> real run < runs \<Longrightarrow>
   run_loop_store random p teamSize maxNo runs run bestTeams bestDiff st s
     = (Inr \<lparr>teams = bestTeams, adrDiff = bestDiff\<rparr>, st, s)"
  by (simp add: run_loop_store.simps)

lemma run_loop_store_step:
  assumes "real run < runs"
  shows "run_loop_store random p teamSize maxNo runs run bestTeams bestDiff st s =
     (let st2 = st @ [fst (shuffle random (st ! p) s)];
          s1 = snd (shuffle random (st ! p) s)
      in case computeTeams (fst (shuffle random (st ! p) s)) teamSize of
              Inl e \<Rightarrow> (Inl e, st2, s1)
            | Inr (ts, curDiff) \<Rightarrow>
                (case search random maxNo ts curDiff 0 s1 of
                   (Inl e, s2) \<Rightarrow> (Inl e, st2, s2)
                 | (Inr (ts', curDiff'), s2) \<Rightarrow>
                     if curDiff' < bestDiff
                     then run_loop_store random p teamSize maxNo runs (run + 1) ts' curDiff' st2 s2
                     else run_loop_store random p teamSize maxNo runs (run + 1)
                            bestTeams bestDiff st2 s2))"
proof -
  have a: "alloc (st ! p) st = (length st, st @ [st ! p])"
    by (simp add: alloc_def)
  have b: "shuffle_store random (length st) (st @ [st ! p]) s
           = (st @ [fst (shuffle random (st ! p) s)], snd (shuffle random (st ! p) s))"
    using shuffle_store_spec [of "length st" "st @ [st ! p]" random s] by simp
  show ?thesis
    using assms by (subst run_loop_store.simps) (simp add: a b Let_def)
qed

lemma take_shorter:
  assumes "take (length (st @ [x])) st' = st @ [x]"
  shows "take (length st) st' = st"
proof -
  have "st' = (st @ [x]) @ drop (length (st @ [x])) st'"
    using assms append_take_drop_id [of "length (st @ [x])" st'] by simp
  then have "take (length st) st' = take (length st) ((st @ [x]) @ drop (length (st @ [x])) st')"
    by simp
  then show ?thesis by simp
qed

lemma run_loop_store_spec:
  assumes "p < length st"
  shows "case run_loop_store random p teamSize maxNo runs run bestTeams bestDiff st s of
           (res, st', s') \<Rightarrow>
             (res, s') = run_loop random (st ! p) teamSize maxNo runs run bestTeams bestDiff s \<and>
             take (length st) st' = st"
  using assms
proof (induction random "st ! p" teamSize maxNo runs run bestTeams bestDiff s arbitrary: st
       rule: run_loop.induct)
  case (1 random teamSize maxNo runs run bestTeams bestDiff s)
  let ?sh = "fst (shuffle random (st ! p) s)" and ?s1 = "snd (shuffle random (st ! p) s)"
  let ?st2 = "st @ [?sh]"
  have p2: "p < length ?st2" "?st2 ! p = st ! p"
    using "1.prems" by (simp_all add: nth_append)
  show ?case
  proof (cases "real run < runs")
    case False
    then show ?thesis by (simp add: run_loop_store_stop run_loop_stop)
  next
    case True
    note step = run_loop_store_step [OF True, of random p teamSize maxNo bestTeams bestDiff st s]
    show ?thesis
    proof (cases "computeTeams ?sh teamSize")
      case (Inl e)
      then show ?thesis
        using step by (simp add: run_loop_throw_compute [OF True] Let_def)
    next
      case (Inr q)
      obtain ts d where q: "q = (ts, d)" by (cases q)
      have c: "computeTeams ?sh teamSize = Inr (ts, d)" using Inr q by simp
      obtain res s2 where se: "search random maxNo ts d 0 ?s1 = (res, s2)"
        by (cases "search random maxNo ts d 0 ?s1")
      show ?thesis
      proof (cases res)
        case (Inl e)
        then show ?thesis
          using step c se run_loop_throw [OF True c, where e = e and ?s2.0 = s2]
          by (simp add: Let_def)
      next
        case (Inr x)
        obtain ts' d' where x: "x = (ts', d')" by (cases x)
        have se': "search random maxNo ts d 0 ?s1 = (Inr (ts', d'), s2)"
          using se Inr x by simp
        show ?thesis
        proof (cases "d' < bestDiff")
          case better: True
          have ih: "case run_loop_store random p teamSize maxNo runs (run + 1) ts' d' ?st2 s2 of
                      (res, st', s') \<Rightarrow>
                        (res, s') = run_loop random (?st2 ! p) teamSize maxNo runs (run + 1) ts' d' s2 \<and>
                        take (length ?st2) st' = ?st2"
            using "1.hyps"(1) [OF True refl prod.collapse c refl se' [symmetric] refl refl better
                                 p2(2) [symmetric] p2(1)] .
          obtain r st' s' where
            rl: "run_loop_store random p teamSize maxNo runs (run + 1) ts' d' ?st2 s2 = (r, st', s')"
            by (cases "run_loop_store random p teamSize maxNo runs (run + 1) ts' d' ?st2 s2")
          have "take (length st) st' = st"
            using ih rl by (intro take_shorter [of st ?sh st']) simp
          then show ?thesis
            using step c se' better ih rl p2(2) run_loop_better [OF True c se' better]
            by (simp add: Let_def)
        next
          case worse: False
          have ih: "case run_loop_store random p teamSize maxNo runs (run + 1) bestTeams bestDiff ?st2 s2 of
                      (res, st', s') \<Rightarrow>
                        (res, s') = run_loop random (?st2 ! p) teamSize maxNo runs (run + 1)
                                      bestTeams bestDiff s2 \<and>
                        take (length ?st2) st' = ?st2"
            using "1.hyps"(2) [OF True refl prod.collapse c refl se' [symmetric] refl refl worse
                                 p2(2) [symmetric] p2(1)] .
          obtain r st' s' where
            rl: "run_loop_store random p teamSize maxNo runs (run + 1) bestTeams bestDiff ?st2 s2
                 = (r, st', s')"
            by (cases "run_loop_store random p teamSize maxNo runs (run + 1) bestTeams bestDiff ?st2 s2")
          have "take (length st) st' = st"
            using ih rl by (intro take_shorter [of st ?sh st']) simp
          then show ?thesis
            using step c se' worse ih rl p2(2) run_loop_not_better [OF True c se' worse]
            by (simp add: Let_def)
        qed
      qed
    qed
  qed
qed

text \<open>\<open>shuffle\<close> itself does change the array it is given.\<close>

lemma shuffle_store_mutates:
  "fst (shuffle_store demo_random 0 [demo_pair] (0 :: nat)) ! 0 = rev demo_pair"
  by (simp add: shuffle_store_def demo_pair_def split_beta Let_def)

text \<open>
  C10. \<open>optimizeTeams\<close> leaves the caller's array as it was, whether it returns or
  throws: every array that existed before the call has the same elements in the same
  order afterwards (each run shuffles a copy allocated for it), and the outcome is the one
  computed from the array's contents.
\<close>

theorem optimizeTeams_keeps_roster:
  assumes "roster < length st"
  shows "case optimizeTeams_store random roster teamSize maxNoImprovement runs st s of
           (res, st', s') \<Rightarrow>
             st' ! roster = st ! roster \<and> take (length st) st' = st \<and>
             (res, s') = optimizeTeams random (st ! roster) teamSize maxNoImprovement runs s"
proof (cases "js_rem (int (length (st ! roster))) teamSize \<noteq> Some 0")
  case True
  then show ?thesis
    by (simp add: optimizeTeams_store_def optimizeTeams_def)
next
  case False
  obtain res st' s' where
    r: "run_loop_store random roster teamSize maxNoImprovement runs 0 [] PosInf st s = (res, st', s')"
    by (cases "run_loop_store random roster teamSize maxNoImprovement runs 0 [] PosInf st s")
  have spec: "(res, s') = run_loop random (st ! roster) teamSize maxNoImprovement runs 0 [] PosInf s"
    and tk: "take (length st) st' = st"
    using run_loop_store_spec [OF assms, of random teamSize maxNoImprovement runs 0 "[]" PosInf s] r
    by simp_all
  have "st' ! roster = take (length st) st' ! roster"
    using assms by simp
  then have "st' ! roster = st ! roster"
    using tk by simp
  then show ?thesis
    using False r spec tk by (simp add: optimizeTeams_store_def optimizeTeams_def)
qed

theorem optimizeTeams_keeps_roster_witness:
  "case optimizeTeams_store demo_random 0 2 3 2 [demo_roster] (0 :: nat) of
     (res, st', s') \<Rightarrow>
       st' ! 0 = demo_roster \<and> take 1 st' = [demo_roster] \<and>
       (res, s') = optimizeTeams demo_random demo_roster 2 3 2 0"
  using optimizeTeams_keeps_roster [of 0 "[demo_roster]" demo_random 2 3 2 0] by simp

end
